theory Spec2Isabelle
  imports Complex_Main "HOL-Library.Word"
begin

section \<open>Common conventions\<close>

text \<open>
  A point in time (Go's \<open>time.Time\<close>) is an integer number of nanoseconds counted from the
  zero \<open>Time\<close> value, so the zero value of an unset \<open>time.Time\<close> field is \<open>0\<close>.  A
  \<open>time.Duration\<close> is a signed 64-bit count of nanoseconds; \<open>Time.Sub\<close> saturates at the
  two ends of that range, which is written out in \<open>time_Sub\<close>.  Every call of
  \<open>time.Now()\<close> in the source is a parameter of the model, in the order of the calls.

  A Go \<open>error\<close> is a value of the datatype \<open>error\<close>; the \<open>nil\<close> error is \<open>None\<close>.
\<close>

datatype error = ErrCircuitOpen | ErrTooManyRequests | ErrOther string

definition maxDuration :: int where
  "maxDuration = 2 ^ 63 - 1"

definition minDuration :: int where
  "minDuration = - (2 ^ 63)"

definition time_Sub :: "int \<Rightarrow> int \<Rightarrow> int" where
  "time_Sub t u =
     (let d = t - u
      in if d > maxDuration then maxDuration
         else if d < minDuration then minDuration
         else d)"

section \<open>Circuit breaker (circuitbreaker.go)\<close>

text \<open>
  The counters \<open>failures\<close> and \<open>requests\<close> are Go \<open>int\<close>s.  They are modelled as
  unbounded integers: \<open>requests\<close> is incremented only below \<open>MaxRequests\<close>, and
  \<open>failures\<close> is compared with the threshold only in the closed state, which is always
  entered with \<open>failures = 0\<close> and left as soon as the threshold is reached, so neither
  comparison ever sees a wrapped value.
\<close>

datatype CircuitState = StateClosed | StateOpen | StateHalfOpen

record CircuitBreakerConfig =
  Enabled :: bool
  Threshold :: int
  Timeout :: int
  MaxRequests :: int

record CircuitBreaker =
  config :: CircuitBreakerConfig
  state :: CircuitState
  failures :: int
  lastFailTime :: int
  requests :: int

definition NewCircuitBreaker :: "CircuitBreakerConfig \<Rightarrow> CircuitBreaker option" where
  "NewCircuitBreaker cfg =
     (if \<not> Enabled cfg then None
      else Some \<lparr>config = cfg, state = StateClosed, failures = 0, lastFailTime = 0,
                 requests = 0\<rparr>)"

text \<open>\<open>beforeRequest\<close>, run under the breaker's lock; \<open>now\<close> is the clock read by
  \<open>time.Since\<close>.  The \<open>default\<close> branch of the source's switch has no counterpart: the
  state field only ever holds one of the three constants.\<close>

definition beforeRequest :: "int \<Rightarrow> CircuitBreaker \<Rightarrow> error option \<times> CircuitBreaker" where
  "beforeRequest now cb =
     (case state cb of
        StateClosed \<Rightarrow> (None, cb)
      | StateOpen \<Rightarrow>
          if time_Sub now (lastFailTime cb) > Timeout (config cb)
          then (None, cb\<lparr>state := StateHalfOpen, requests := 0\<rparr>)
          else (Some ErrCircuitOpen, cb)
      | StateHalfOpen \<Rightarrow>
          if requests cb \<ge> MaxRequests (config cb)
          then (Some ErrTooManyRequests, cb)
          else (None, cb\<lparr>requests := requests cb + 1\<rparr>))"

definition onSuccess :: "CircuitBreaker \<Rightarrow> CircuitBreaker" where
  "onSuccess cb =
     (case state cb of
        StateClosed \<Rightarrow> cb\<lparr>failures := 0\<rparr>
      | StateHalfOpen \<Rightarrow> cb\<lparr>state := StateClosed, failures := 0, requests := 0\<rparr>
      | StateOpen \<Rightarrow> cb)"

definition onFailure :: "int \<Rightarrow> CircuitBreaker \<Rightarrow> CircuitBreaker" where
  "onFailure now cb =
     (let cb1 = cb\<lparr>failures := failures cb + 1, lastFailTime := now\<rparr>
      in case state cb1 of
           StateClosed \<Rightarrow>
             if failures cb1 \<ge> Threshold (config cb1) then cb1\<lparr>state := StateOpen\<rparr> else cb1
         | StateHalfOpen \<Rightarrow> cb1\<lparr>state := StateOpen, requests := 0\<rparr>
         | StateOpen \<Rightarrow> cb1)"

definition afterRequest :: "error option \<Rightarrow> int \<Rightarrow> CircuitBreaker \<Rightarrow> CircuitBreaker" where
  "afterRequest err now cb = (if err \<noteq> None then onFailure now cb else onSuccess cb)"

text \<open>\<open>Call\<close> in one goroutine: the gate, then \<open>fn\<close> (a computation on a world state
  \<open>'w\<close> that returns an error or \<open>nil\<close>), then the record step.  \<open>t0\<close> is the clock read
  by the gate, \<open>t1\<close> the clock read by \<open>onFailure\<close>.  A \<open>nil\<close> breaker is \<open>None\<close>.\<close>

definition Call ::
  "CircuitBreaker option \<Rightarrow> int \<Rightarrow> ('w \<Rightarrow> error option \<times> 'w) \<Rightarrow> int \<Rightarrow> 'w
     \<Rightarrow> error option \<times> CircuitBreaker option \<times> 'w" where
  "Call cbp t0 fn t1 w =
     (case cbp of
        None \<Rightarrow> (case fn w of (err, w') \<Rightarrow> (err, None, w'))
      | Some cb \<Rightarrow>
          (case beforeRequest t0 cb of
             (Some err, cb') \<Rightarrow> (Some err, Some cb', w)
           | (None, cb') \<Rightarrow>
               (case fn w of (err, w') \<Rightarrow> (err, Some (afterRequest err t1 cb'), w'))))"

text \<open>Calls of several goroutines interleave, but \<open>beforeRequest\<close> and \<open>afterRequest\<close>
  each run under the breaker's mutex.  An execution is therefore a sequence of these two
  atomic steps, in any order; the sequences of one goroutine's \<open>Call\<close>s are among them.\<close>

datatype cb_event = EvBefore int | EvAfter "error option" int

fun cb_step :: "CircuitBreaker \<Rightarrow> cb_event \<Rightarrow> CircuitBreaker" where
  "cb_step cb (EvBefore now) = snd (beforeRequest now cb)"
| "cb_step cb (EvAfter err now) = afterRequest err now cb"

definition cb_run :: "cb_event list \<Rightarrow> CircuitBreaker \<Rightarrow> CircuitBreaker" where
  "cb_run evs cb = foldl cb_step cb evs"

definition cb_inv :: "CircuitBreaker \<Rightarrow> bool" where
  "cb_inv cb \<longleftrightarrow>
     (case state cb of
        StateClosed \<Rightarrow> requests cb = 0 \<and> 0 \<le> failures cb
                        \<and> failures cb < max 1 (Threshold (config cb))
      | StateOpen \<Rightarrow> requests cb = 0
      | StateHalfOpen \<Rightarrow> 0 \<le> requests cb \<and> requests cb \<le> max 0 (MaxRequests (config cb)))"

section \<open>Token-bucket rate limiter (ratelimiter.go)\<close>

text \<open>
  \<open>float64\<close> values (\<open>rate\<close>, \<open>tokens\<close>, elapsed seconds) are modelled as real
  numbers: the arithmetic of the source is read as exact.  \<open>Duration.Seconds\<close> is the
  duration in nanoseconds divided by \<open>10\<^sup>9\<close>.
\<close>

record RateLimitConfig =
  rl_Enabled :: bool
  RequestsPerSecond :: int
  BurstSize :: int
  PerIP :: bool
  rl_CleanupInterval :: int

record bucket =
  tokens :: real
  lastCheck :: int

record TokenBucketLimiter =
  rate :: real
  burst :: int
  perIP :: bool
  buckets :: "string \<rightharpoonup> bucket"

definition Seconds :: "int \<Rightarrow> real" where
  "Seconds d = real_of_int d / 1000000000"

definition NewRateLimiter :: "RateLimitConfig \<Rightarrow> TokenBucketLimiter option" where
  "NewRateLimiter cfg =
     (if \<not> rl_Enabled cfg then None
      else Some \<lparr>rate = real_of_int (RequestsPerSecond cfg), burst = BurstSize cfg,
                 perIP = PerIP cfg, buckets = Map.empty\<rparr>)"

text \<open>The key actually used: the constant \<open>global\<close> unless the limiter is per IP.\<close>

definition bucket_key :: "TokenBucketLimiter \<Rightarrow> string \<Rightarrow> string" where
  "bucket_key rl k = (if \<not> perIP rl then ''global'' else k)"

text \<open>Get or create the bucket.  \<open>tNew\<close> is the \<open>time.Now()\<close> of the creation, read
  only when the key has no bucket yet.\<close>

definition get_bucket :: "TokenBucketLimiter \<Rightarrow> string \<Rightarrow> int \<Rightarrow> bucket" where
  "get_bucket rl k tNew =
     (case buckets rl k of
        Some b \<Rightarrow> b
      | None \<Rightarrow> \<lparr>tokens = real_of_int (burst rl), lastCheck = tNew\<rparr>)"

text \<open>The refill of the token-bucket step: add the tokens earned since \<open>lastCheck\<close>, cap
  at \<open>burst\<close>, move \<open>lastCheck\<close> to \<open>now\<close>.\<close>

definition refill :: "TokenBucketLimiter \<Rightarrow> int \<Rightarrow> bucket \<Rightarrow> bucket" where
  "refill rl now b =
     (let elapsed = Seconds (time_Sub now (lastCheck b));
          t = tokens b + elapsed * rate rl;
          t' = (if t > real_of_int (burst rl) then real_of_int (burst rl) else t)
      in b\<lparr>tokens := t', lastCheck := now\<rparr>)"

text \<open>\<open>Allow\<close>; a \<open>nil\<close> limiter is \<open>None\<close>.  \<open>now\<close> is the \<open>time.Now()\<close> read under
  the bucket's lock.\<close>

definition Allow ::
  "TokenBucketLimiter option \<Rightarrow> string \<Rightarrow> int \<Rightarrow> int \<Rightarrow> bool \<times> TokenBucketLimiter option" where
  "Allow rlp key0 tNew now =
     (case rlp of
        None \<Rightarrow> (True, None)
      | Some rl \<Rightarrow>
          (let k = bucket_key rl key0;
               b = refill rl now (get_bucket rl k tNew)
           in if tokens b \<ge> 1
              then (True, Some (rl\<lparr>buckets := (buckets rl)(k \<mapsto> b\<lparr>tokens := tokens b - 1\<rparr>)\<rparr>))
              else (False, Some (rl\<lparr>buckets := (buckets rl)(k \<mapsto> b)\<rparr>))))"

text \<open>\<open>Cleanup\<close> deletes every bucket idle for more than five minutes.\<close>

definition fiveMinutes :: int where
  "fiveMinutes = 5 * 60 * 1000000000"

definition TokenBucketLimiter_Cleanup ::
  "TokenBucketLimiter option \<Rightarrow> int \<Rightarrow> TokenBucketLimiter option" where
  "TokenBucketLimiter_Cleanup rlp now =
     (case rlp of
        None \<Rightarrow> None
      | Some rl \<Rightarrow>
          Some (rl\<lparr>buckets := (\<lambda>k. case buckets rl k of
                                     None \<Rightarrow> None
                                   | Some b \<Rightarrow> if time_Sub now (lastCheck b) > fiveMinutes
                                               then None else Some b)\<rparr>))"

text \<open>A history of the limiter: calls of \<open>Allow\<close> and of \<open>Cleanup\<close> with their clock
  readings.\<close>

datatype rl_op = OpAllow string int int | OpCleanup int

fun rl_step :: "TokenBucketLimiter option \<Rightarrow> rl_op \<Rightarrow> TokenBucketLimiter option" where
  "rl_step rlp (OpAllow k tNew now) = snd (Allow rlp k tNew now)"
| "rl_step rlp (OpCleanup now) = TokenBucketLimiter_Cleanup rlp now"

definition rl_run :: "rl_op list \<Rightarrow> TokenBucketLimiter option \<Rightarrow> TokenBucketLimiter option" where
  "rl_run ops rlp = foldl rl_step rlp ops"

text \<open>The clock never runs backwards: the readings of a history, in the order in which
  they are taken, do not decrease.\<close>

fun op_clock :: "rl_op \<Rightarrow> int list" where
  "op_clock (OpAllow k tNew now) = [tNew, now]"
| "op_clock (OpCleanup now) = [now]"

definition clock_monotone :: "rl_op list \<Rightarrow> bool" where
  "clock_monotone ops = sorted (concat (map op_clock ops))"

text \<open>The invariant of the limiter: rate and burst are non-negative, and every bucket
  holds between 0 and \<open>burst\<close> tokens and was last checked no later than \<open>t\<close>.\<close>

definition rl_inv :: "int \<Rightarrow> TokenBucketLimiter \<Rightarrow> bool" where
  "rl_inv t rl \<longleftrightarrow>
     0 \<le> rate rl \<and> 0 \<le> burst rl
     \<and> (\<forall>k b. buckets rl k = Some b \<longrightarrow>
            0 \<le> tokens b \<and> tokens b \<le> real_of_int (burst rl) \<and> lastCheck b \<le> t)"

section \<open>LRU cache with TTL (ratelimiter.go, second file)\<close>

text \<open>
  The cache owns a \<open>container/list\<close> of elements and a map from keys to elements; every
  element points to its \<open>cacheEntry\<close>.  Elements are addresses (natural numbers),
  \<open>elems\<close> is the store that gives the entry an element points to, \<open>evictList\<close> is the
  list of elements from front (most recently used) to back, and \<open>nextElem\<close> is the next
  address \<open>PushFront\<close> allocates.  A \<open>[]byte\<close> is a list of bytes; the \<open>nil\<close> slice is
  the empty list.
\<close>

type_synonym bytes = "8 word list"

record CacheConfig =
  cache_Enabled :: bool
  MaxSize :: int
  TTL :: int
  cache_CleanupInterval :: int

record cacheEntry =
  entry_key :: string
  entry_value :: bytes
  expireTime :: int

record LRUCache =
  maxSize :: int
  ttl :: int
  items :: "string \<rightharpoonup> nat"
  evictList :: "nat list"
  elems :: "nat \<Rightarrow> cacheEntry"
  nextElem :: nat

text \<open>The operations of \<open>container/list\<close> that the cache uses.  \<open>MoveToFront\<close> and
  \<open>Remove\<close> leave the list alone when the element is not in it.\<close>

definition list_PushFront :: "nat \<Rightarrow> nat list \<Rightarrow> nat list" where
  "list_PushFront e l = e # l"

definition list_MoveToFront :: "nat \<Rightarrow> nat list \<Rightarrow> nat list" where
  "list_MoveToFront e l = (if e \<in> set l then e # remove1 e l else l)"

definition list_Remove :: "nat \<Rightarrow> nat list \<Rightarrow> nat list" where
  "list_Remove e l = remove1 e l"

definition list_Back :: "nat list \<Rightarrow> nat option" where
  "list_Back l = (if l = [] then None else Some (last l))"

definition list_Len :: "nat list \<Rightarrow> int" where
  "list_Len l = int (length l)"

definition NewCache :: "CacheConfig \<Rightarrow> LRUCache option" where
  "NewCache cfg =
     (if \<not> cache_Enabled cfg then None
      else Some \<lparr>maxSize = MaxSize cfg, ttl = TTL cfg, items = Map.empty, evictList = [],
                 elems = (\<lambda>_. \<lparr>entry_key = [], entry_value = [], expireTime = 0\<rparr>),
                 nextElem = 0\<rparr>)"

definition removeElement :: "LRUCache \<Rightarrow> nat \<Rightarrow> LRUCache" where
  "removeElement c e =
     c\<lparr>evictList := list_Remove e (evictList c),
       items := (items c)(entry_key (elems c e) := None)\<rparr>"

definition evictOldest :: "LRUCache \<Rightarrow> LRUCache" where
  "evictOldest c =
     (case list_Back (evictList c) of
        None \<Rightarrow> c
      | Some e \<Rightarrow> removeElement c e)"

text \<open>\<open>Get\<close> returns the bytes and the found flag, and the cache after the call.\<close>

definition LRUCache_Get ::
  "LRUCache option \<Rightarrow> string \<Rightarrow> int \<Rightarrow> (bytes \<times> bool) \<times> LRUCache option" where
  "LRUCache_Get cp k now =
     (case cp of
        None \<Rightarrow> (([], False), None)
      | Some c \<Rightarrow>
          (case items c k of
             None \<Rightarrow> (([], False), Some c)
           | Some e \<Rightarrow>
               (let entry = elems c e
                in if now > expireTime entry
                   then (([], False), Some (removeElement c e))
                   else ((entry_value entry, True),
                         Some (c\<lparr>evictList := list_MoveToFront e (evictList c)\<rparr>)))))"

definition LRUCache_Set ::
  "LRUCache option \<Rightarrow> string \<Rightarrow> bytes \<Rightarrow> int \<Rightarrow> LRUCache option" where
  "LRUCache_Set cp k v now =
     (case cp of
        None \<Rightarrow> None
      | Some c \<Rightarrow>
          (case items c k of
             Some e \<Rightarrow>
               Some (c\<lparr>evictList := list_MoveToFront e (evictList c),
                       elems := (elems c)(e := (elems c e)\<lparr>entry_value := v,
                                                          expireTime := now + ttl c\<rparr>)\<rparr>)
           | None \<Rightarrow>
               (let e = nextElem c;
                    c1 = c\<lparr>elems := (elems c)(e := \<lparr>entry_key = k, entry_value = v,
                                                   expireTime = now + ttl c\<rparr>),
                           nextElem := e + 1,
                           evictList := list_PushFront e (evictList c),
                           items := (items c)(k \<mapsto> e)\<rparr>
                in if list_Len (evictList c1) > maxSize c1
                   then Some (evictOldest c1)
                   else Some c1)))"

definition LRUCache_Delete :: "LRUCache option \<Rightarrow> string \<Rightarrow> LRUCache option" where
  "LRUCache_Delete cp k =
     (case cp of
        None \<Rightarrow> None
      | Some c \<Rightarrow>
          (case items c k of
             Some e \<Rightarrow> Some (removeElement c e)
           | None \<Rightarrow> Some c))"

definition LRUCache_Clear :: "LRUCache option \<Rightarrow> LRUCache option" where
  "LRUCache_Clear cp =
     (case cp of
        None \<Rightarrow> None
      | Some c \<Rightarrow> Some (c\<lparr>items := Map.empty, evictList := []\<rparr>))"

definition LRUCache_Size :: "LRUCache option \<Rightarrow> int" where
  "LRUCache_Size cp =
     (case cp of
        None \<Rightarrow> 0
      | Some c \<Rightarrow> list_Len (evictList c))"

text \<open>\<open>Cleanup\<close> walks the list from the back, collects the expired elements, and then
  removes them one by one.\<close>

definition LRUCache_Cleanup :: "LRUCache option \<Rightarrow> int \<Rightarrow> LRUCache option" where
  "LRUCache_Cleanup cp now =
     (case cp of
        None \<Rightarrow> None
      | Some c \<Rightarrow>
          (let toRemove = filter (\<lambda>e. now > expireTime (elems c e)) (rev (evictList c))
           in Some (foldl removeElement c toRemove)))"

text \<open>A history of the cache: the public operations, each with the clock reading it
  takes.\<close>

datatype cache_op =
  CGet string int | CSet string bytes int | CDelete string | CClear | CCleanup int

fun cache_step :: "LRUCache option \<Rightarrow> cache_op \<Rightarrow> LRUCache option" where
  "cache_step cp (CGet k now) = snd (LRUCache_Get cp k now)"
| "cache_step cp (CSet k v now) = LRUCache_Set cp k v now"
| "cache_step cp (CDelete k) = LRUCache_Delete cp k"
| "cache_step cp CClear = LRUCache_Clear cp"
| "cache_step cp (CCleanup now) = LRUCache_Cleanup cp now"

definition cache_run :: "cache_op list \<Rightarrow> LRUCache option \<Rightarrow> LRUCache option" where
  "cache_run ops cp = foldl cache_step cp ops"


text \<open>The structural invariant of the cache: the list has no element twice, every
  element of the list is indexed under the key of its entry, every indexed element is in
  the list under that key, and addresses not yet allocated are not in use.\<close>

definition cache_wf :: "LRUCache \<Rightarrow> bool" where
  "cache_wf c \<longleftrightarrow>
     distinct (evictList c)
     \<and> (\<forall>e \<in> set (evictList c). e < nextElem c \<and> items c (entry_key (elems c e)) = Some e)
     \<and> (\<forall>k e. items c k = Some e \<longrightarrow> e \<in> set (evictList c) \<and> entry_key (elems c e) = k)"

definition cache_inv :: "LRUCache \<Rightarrow> bool" where
  "cache_inv c \<longleftrightarrow> cache_wf c \<and> list_Len (evictList c) \<le> max 0 (maxSize c)"

section \<open>Backends, load balancers and health checks (load_balancer.go)\<close>

text \<open>
  A \<open>*Backend\<close> is an index into the pool (the list of backends that the balancer and the
  health checker share); the \<open>nil\<close> pointer is \<open>NoBackend\<close>.  An index expression out of
  range panics in Go; the only place where the balancers can reach one is \<open>IndexPanic\<close>.
  The round-robin counter is a \<open>uint64\<close> and wraps around.
\<close>

record Backend =
  URL :: string
  Alive :: bool
  Connections :: int

definition IsAlive :: "Backend \<Rightarrow> bool" where
  "IsAlive b = Alive b"

definition SetAlive :: "bool \<Rightarrow> Backend \<Rightarrow> Backend" where
  "SetAlive a b = b\<lparr>Alive := a\<rparr>"

definition IncrementConnections :: "Backend \<Rightarrow> Backend" where
  "IncrementConnections b = b\<lparr>Connections := Connections b + 1\<rparr>"

definition DecrementConnections :: "Backend \<Rightarrow> Backend" where
  "DecrementConnections b = b\<lparr>Connections := Connections b - 1\<rparr>"

definition GetConnections :: "Backend \<Rightarrow> int" where
  "GetConnections b = Connections b"

datatype selection = Selected nat | NoBackend | IndexPanic

record RoundRobinBalancer =
  rr_backends :: "Backend list"
  current :: "64 word"

text \<open>The scan of \<open>RoundRobinBalancer.NextBackend\<close>: the loop over \<open>i\<close> from the start
  index.\<close>

function rr_scan :: "Backend list \<Rightarrow> 64 word \<Rightarrow> nat \<Rightarrow> selection" where
  "rr_scan bs start i =
     (if i < length bs
      then (let idx = (start + of_nat i) mod of_nat (length bs)
            in if IsAlive (bs ! unat idx) then Selected (unat idx)
               else rr_scan bs start (i + 1))
      else NoBackend)"
  by pat_completeness auto
termination
  by (relation "measure (\<lambda>(bs, start, i). length bs - i)") auto

definition RoundRobinBalancer_NextBackend ::
  "RoundRobinBalancer \<Rightarrow> selection \<times> RoundRobinBalancer" where
  "RoundRobinBalancer_NextBackend rb =
     (if length (rr_backends rb) = 0 then (NoBackend, rb)
      else (let c = current rb + 1;
                start = c mod of_nat (length (rr_backends rb))
            in (rr_scan (rr_backends rb) start 0, rb\<lparr>current := c\<rparr>)))"

text \<open>Least connections: one pass that keeps the selected backend and its count;
  \<open>minConns = -1\<close> means that nothing is selected yet.\<close>

definition lc_step :: "nat option \<times> int \<Rightarrow> nat \<times> Backend \<Rightarrow> nat option \<times> int" where
  "lc_step acc ib =
     (case acc of (selected, minConns) \<Rightarrow>
        (case ib of (i, backend) \<Rightarrow>
           if \<not> IsAlive backend then (selected, minConns)
           else (let conns = GetConnections backend
                 in if minConns = -1 \<or> conns < minConns then (Some i, conns)
                    else (selected, minConns))))"

definition LeastConnectionBalancer_NextBackend :: "Backend list \<Rightarrow> selection" where
  "LeastConnectionBalancer_NextBackend bs =
     (if length bs = 0 then NoBackend
      else (case fst (foldl lc_step (None, -1) (zip [0..<length bs] bs)) of
              None \<Rightarrow> NoBackend
            | Some i \<Rightarrow> Selected i))"

text \<open>Go's \<open>%\<close> on signed integers truncates towards zero: the result has the sign of the
  dividend.\<close>

definition go_rem :: "int \<Rightarrow> int \<Rightarrow> int" where
  "go_rem a b = sgn a * (\<bar>a\<bar> mod \<bar>b\<bar>)"

text \<open>Random: \<open>unixNano\<close> is \<open>time.Now().UnixNano()\<close>.\<close>

definition RandomBalancer_NextBackend :: "Backend list \<Rightarrow> int \<Rightarrow> selection" where
  "RandomBalancer_NextBackend bs unixNano =
     (if length bs = 0 then NoBackend
      else (let aliveBackends = filter (\<lambda>i. IsAlive (bs ! i)) [0..<length bs]
            in if length aliveBackends = 0 then NoBackend
               else (let idx = go_rem unixNano (int (length aliveBackends))
                     in if 0 \<le> idx \<and> idx < int (length aliveBackends)
                        then Selected (aliveBackends ! nat idx)
                        else IndexPanic)))"

text \<open>The \<open>LoadBalancer\<close> interface with its three implementations.\<close>

datatype LoadBalancer =
  RoundRobin RoundRobinBalancer
| LeastConnection "Backend list"
| Random "Backend list"

fun backends_of :: "LoadBalancer \<Rightarrow> Backend list" where
  "backends_of (RoundRobin rb) = rr_backends rb"
| "backends_of (LeastConnection bs) = bs"
| "backends_of (Random bs) = bs"

fun with_backends :: "LoadBalancer \<Rightarrow> Backend list \<Rightarrow> LoadBalancer" where
  "with_backends (RoundRobin rb) bs = RoundRobin (rb\<lparr>rr_backends := bs\<rparr>)"
| "with_backends (LeastConnection _) bs = LeastConnection bs"
| "with_backends (Random _) bs = Random bs"

fun NextBackend :: "LoadBalancer \<Rightarrow> int \<Rightarrow> selection \<times> LoadBalancer" where
  "NextBackend (RoundRobin rb) unixNano =
     (case RoundRobinBalancer_NextBackend rb of (s, rb') \<Rightarrow> (s, RoundRobin rb'))"
| "NextBackend (LeastConnection bs) unixNano =
     (LeastConnectionBalancer_NextBackend bs, LeastConnection bs)"
| "NextBackend (Random bs) unixNano =
     (RandomBalancer_NextBackend bs unixNano, Random bs)"

text \<open>\<open>MarkBackendDown\<close> and \<open>MarkBackendUp\<close> are the same in all three balancers: they set
  the backend's flag.\<close>

definition MarkBackendDown :: "Backend \<Rightarrow> Backend" where
  "MarkBackendDown b = SetAlive False b"

definition MarkBackendUp :: "Backend \<Rightarrow> Backend" where
  "MarkBackendUp b = SetAlive True b"

text \<open>The health check of one backend.  What the probe met is a parameter: the request
  could not be built, the HTTP client returned an error, or a response with a status code
  arrived.  The result is the backend after the check and the logger calls made, in
  order.\<close>

datatype probe = NewRequestFailed string | DoFailed string | Response int

datatype log_level = LogInfo | LogWarn | LogError

definition StatusOK :: int where
  "StatusOK = 200"

definition checkBackend :: "probe \<Rightarrow> Backend \<Rightarrow> Backend \<times> (log_level \<times> string) list" where
  "checkBackend p backend =
     (case p of
        NewRequestFailed err \<Rightarrow>
          (MarkBackendDown backend, [(LogWarn, ''Health check failed to create request'')])
      | DoFailed err \<Rightarrow>
          (let wasAlive = IsAlive backend
           in (MarkBackendDown backend,
               if wasAlive then [(LogWarn, ''Backend marked as down'')] else []))
      | Response statusCode \<Rightarrow>
          if statusCode = StatusOK
          then (let wasDown = \<not> IsAlive backend
                in (MarkBackendUp backend,
                    if wasDown then [(LogInfo, ''Backend marked as up'')] else []))
          else (let wasAlive = IsAlive backend
                in (MarkBackendDown backend,
                    if wasAlive then [(LogWarn, ''Backend health check failed'')] else [])))"

section \<open>Proxy stage with retries (proxy.go)\<close>

text \<open>
  What one upstream attempt meets is a parameter \<open>up\<close>, a function from the attempt
  number to the outcome: the upstream request could not be built, the HTTP client returned
  an error, the response arrived but copying its body failed, or the response was copied
  to the client.  The effects of the proxy are collected in a record: what was written to
  the client, how often \<open>proxyRequest\<close> was called, how many requests were sent upstream,
  and the durations slept between attempts.  Logger calls are left out.

  The loop counter \<open>attempt\<close> and \<open>RetryAttempts\<close> are Go \<open>int\<close>s, modelled as integers;
  the counter stays within 64 bits whenever \<open>RetryAttempts < 2\<^sup>6\<^sup>3 - 1\<close>.
\<close>

record BackendConfig =
  RetryAttempts :: int
  RetryDelay :: int

datatype upstream_result =
  BuildFailed string | SendFailed string | CopyFailed int string | Copied int

datatype resp_event = HttpError int string | Forwarded int

record proxy_io =
  written :: "resp_event list"
  calls :: nat
  sent :: nat
  slept :: "int list"

definition StatusBadGateway :: int where
  "StatusBadGateway = 502"

definition StatusServiceUnavailable :: int where
  "StatusServiceUnavailable = 503"

definition http_Error :: "int \<Rightarrow> string \<Rightarrow> proxy_io \<Rightarrow> proxy_io" where
  "http_Error code msg io = io\<lparr>written := written io @ [HttpError code msg]\<rparr>"

definition proxyRequest :: "upstream_result \<Rightarrow> proxy_io \<Rightarrow> error option \<times> proxy_io" where
  "proxyRequest r io0 =
     (let io = io0\<lparr>calls := calls io0 + 1\<rparr>
      in case r of
           BuildFailed err \<Rightarrow>
             (Some (ErrOther err), http_Error StatusBadGateway ''Bad Gateway'' io)
         | SendFailed err \<Rightarrow>
             (Some (ErrOther err),
              http_Error StatusBadGateway ''Bad Gateway'' (io\<lparr>sent := sent io + 1\<rparr>))
         | CopyFailed status err \<Rightarrow>
             (Some (ErrOther err),
              io\<lparr>sent := sent io + 1, written := written io @ [Forwarded status]\<rparr>)
         | Copied status \<Rightarrow>
             (None, io\<lparr>sent := sent io + 1, written := written io @ [Forwarded status]\<rparr>))"

definition isClientError :: "error \<Rightarrow> bool" where
  "isClientError err = False"

text \<open>A \<open>time.Duration\<close> product wraps around in 64 bits.\<close>

definition wrap64 :: "int \<Rightarrow> int" where
  "wrap64 x = (x + 2 ^ 63) mod 2 ^ 64 - 2 ^ 63"

text \<open>The retry loop of \<open>proxyRequestWithRetry\<close>, from the value \<open>attempt\<close> of the loop
  counter and the last error seen.\<close>

function retry_loop ::
  "BackendConfig \<Rightarrow> (nat \<Rightarrow> upstream_result) \<Rightarrow> int \<Rightarrow> error option \<Rightarrow> proxy_io
     \<Rightarrow> error option \<times> proxy_io" where
  "retry_loop cfg up attempt lastErr io =
     (if attempt \<le> RetryAttempts cfg
      then (case proxyRequest (up (nat attempt))
                   (if attempt > 0
                    then io\<lparr>slept := slept io @ [wrap64 (RetryDelay cfg * attempt)]\<rparr>
                    else io) of
              (None, io') \<Rightarrow> (None, io')
            | (Some err, io') \<Rightarrow>
                if isClientError err then (Some err, io')
                else retry_loop cfg up (attempt + 1) (Some err) io')
      else (lastErr, io))"
  by pat_completeness auto
termination
  by (relation "measure (\<lambda>(cfg, up, attempt, lastErr, io). nat (RetryAttempts cfg + 1 - attempt))")
     auto

definition proxyRequestWithRetry ::
  "BackendConfig \<Rightarrow> (nat \<Rightarrow> upstream_result) \<Rightarrow> Backend \<Rightarrow> proxy_io
     \<Rightarrow> error option \<times> Backend \<times> proxy_io" where
  "proxyRequestWithRetry cfg up backend io =
     (let b1 = IncrementConnections backend
      in case retry_loop cfg up 0 None io of
           (err, io') \<Rightarrow> (err, DecrementConnections b1, io'))"

text \<open>The proxy middleware.  \<open>whitelist\<close> is the lookup in the \<open>map[string]bool\<close> (false for
  a missing path); a whitelisted request goes to the next handler, which is not modelled:
  the result is then \<open>CalledNext\<close>.  \<open>unixNano\<close> is the clock of the random balancer,
  \<open>t0\<close> and \<open>t1\<close> are the clocks of the breaker's gate and record steps.\<close>

datatype handler_result = CalledNext | Returned | Panicked

definition ProxyMiddleware ::
  "LoadBalancer \<Rightarrow> CircuitBreaker option \<Rightarrow> BackendConfig \<Rightarrow> (string \<Rightarrow> bool) \<Rightarrow> string
     \<Rightarrow> int \<Rightarrow> int \<Rightarrow> int \<Rightarrow> (nat \<Rightarrow> upstream_result) \<Rightarrow> proxy_io
     \<Rightarrow> handler_result \<times> LoadBalancer \<times> CircuitBreaker option \<times> proxy_io" where
  "ProxyMiddleware lb breaker cfg whitelist path unixNano t0 t1 up io =
     (if whitelist path then (CalledNext, lb, breaker, io)
      else (case NextBackend lb unixNano of
              (IndexPanic, lb1) \<Rightarrow> (Panicked, lb1, breaker, io)
            | (NoBackend, lb1) \<Rightarrow>
                (Returned, lb1, breaker,
                 http_Error StatusServiceUnavailable ''Service Unavailable'' io)
            | (Selected i, lb1) \<Rightarrow>
                (case Call breaker t0
                        (\<lambda>(l, w). case proxyRequestWithRetry cfg up (backends_of l ! i) w of
                                     (err, b, w') \<Rightarrow>
                                       (err, (with_backends l ((backends_of l)[i := b]), w')))
                        t1 (lb1, io) of
                   (err, breaker', (lb2, io')) \<Rightarrow>
                     if err = Some ErrCircuitOpen \<or> err = Some ErrTooManyRequests
                     then (Returned, lb2, breaker',
                           http_Error StatusServiceUnavailable ''Service Unavailable'' io')
                     else (Returned, lb2, breaker', io'))))"

text \<open>The error that \<open>proxyRequest\<close> returns on an outcome (\<open>None\<close> for a copied
  response); lemma \<open>proxyRequest_error\<close> ties it to the source.\<close>

definition attempt_error :: "upstream_result \<Rightarrow> error option" where
  "attempt_error r = fst (proxyRequest r \<lparr>written = [], calls = 0, sent = 0, slept = []\<rparr>)"

section \<open>Proofs: circuit breaker\<close>

lemma cb_step_config: "config (cb_step cb ev) = config cb"
  by (cases ev)
     (auto simp: beforeRequest_def afterRequest_def onFailure_def onSuccess_def Let_def
           split: CircuitState.splits)

lemma cb_step_inv: "cb_inv cb \<Longrightarrow> cb_inv (cb_step cb ev)"
  by (cases ev)
     (auto simp: cb_inv_def beforeRequest_def afterRequest_def onFailure_def onSuccess_def
                 Let_def
           split: CircuitState.splits)

lemma cb_run_inv: "cb_inv cb \<Longrightarrow> cb_inv (cb_run evs cb)"
  unfolding cb_run_def
  by (induction evs arbitrary: cb) (simp_all add: cb_step_inv)

lemma cb_run_config: "config (cb_run evs cb) = config cb"
  unfolding cb_run_def
  by (induction evs arbitrary: cb) (simp_all add: cb_step_config)

lemma cb_inv_new: "NewCircuitBreaker cfg = Some cb \<Longrightarrow> cb_inv cb"
  by (auto simp: NewCircuitBreaker_def cb_inv_def split: if_splits)

text \<open>
  The rows of the state table, for the breaker \<open>cb\<close> reached from a new breaker by any
  sequence of gate and record steps.  Each row gives the whole effect of the step.  In the
  closed state the failure count stays below the threshold (below 1 for a threshold under
  1), and in the half-open state the probe counter is between 0 and \<open>MaxRequests\<close>.
\<close>

lemma state_table_rows:
  assumes new: "NewCircuitBreaker cfg = Some cb0"
    and run: "cb = cb_run evs cb0"
  shows
    "config cb = cfg
     \<and> (state cb = StateClosed \<longrightarrow>
            beforeRequest now cb = (None, cb)
          \<and> afterRequest None now cb = cb\<lparr>failures := 0\<rparr>
          \<and> afterRequest (Some e) now cb =
              (if failures cb + 1 \<ge> Threshold cfg
               then cb\<lparr>failures := failures cb + 1, lastFailTime := now, state := StateOpen\<rparr>
               else cb\<lparr>failures := failures cb + 1, lastFailTime := now\<rparr>)
          \<and> 0 \<le> failures cb \<and> failures cb < max 1 (Threshold cfg))
     \<and> (state cb = StateOpen \<longrightarrow>
            beforeRequest now cb =
              (if time_Sub now (lastFailTime cb) > Timeout cfg
               then (None, cb\<lparr>state := StateHalfOpen, requests := 0\<rparr>)
               else (Some ErrCircuitOpen, cb))
          \<and> afterRequest None now cb = cb
          \<and> afterRequest (Some e) now cb
              = cb\<lparr>failures := failures cb + 1, lastFailTime := now\<rparr>)
     \<and> (state cb = StateHalfOpen \<longrightarrow>
            0 \<le> requests cb \<and> requests cb \<le> max 0 (MaxRequests cfg)
          \<and> beforeRequest now cb =
              (if requests cb < MaxRequests cfg
               then (None, cb\<lparr>requests := requests cb + 1\<rparr>)
               else (Some ErrTooManyRequests, cb))
          \<and> afterRequest (Some e) now cb =
              cb\<lparr>failures := failures cb + 1, lastFailTime := now, state := StateOpen,
                 requests := 0\<rparr>
          \<and> afterRequest None now cb = cb\<lparr>state := StateClosed, failures := 0, requests := 0\<rparr>)"
proof -
  have cfg0: "config cb0 = cfg"
    using new by (auto simp: NewCircuitBreaker_def split: if_splits)
  have cfg: "config cb = cfg"
    using run cfg0 by (simp add: cb_run_config)
  have inv: "cb_inv cb"
    using run cb_run_inv [OF cb_inv_new [OF new]] by simp
  have closed: "state cb = StateClosed \<Longrightarrow> 0 \<le> failures cb \<and> failures cb < max 1 (Threshold cfg)"
    using inv cfg by (simp add: cb_inv_def)
  have half: "state cb = StateHalfOpen \<Longrightarrow> 0 \<le> requests cb \<and> requests cb \<le> max 0 (MaxRequests cfg)"
    using inv cfg by (simp add: cb_inv_def)
  have c1: "state cb = StateClosed \<Longrightarrow> beforeRequest now cb = (None, cb)"
    by (simp add: beforeRequest_def)
  have c2: "state cb = StateClosed \<Longrightarrow> afterRequest None now cb = cb\<lparr>failures := 0\<rparr>"
    by (simp add: afterRequest_def onSuccess_def)
  have c3: "state cb = StateClosed \<Longrightarrow> afterRequest (Some e) now cb =
              (if failures cb + 1 \<ge> Threshold cfg
               then cb\<lparr>failures := failures cb + 1, lastFailTime := now, state := StateOpen\<rparr>
               else cb\<lparr>failures := failures cb + 1, lastFailTime := now\<rparr>)"
    using cfg by (simp add: afterRequest_def onFailure_def Let_def)
  have o1: "state cb = StateOpen \<Longrightarrow> beforeRequest now cb =
              (if time_Sub now (lastFailTime cb) > Timeout cfg
               then (None, cb\<lparr>state := StateHalfOpen, requests := 0\<rparr>)
               else (Some ErrCircuitOpen, cb))"
    using cfg by (simp add: beforeRequest_def)
  have o2: "state cb = StateOpen \<Longrightarrow> afterRequest None now cb = cb"
    by (simp add: afterRequest_def onSuccess_def)
  have o3: "state cb = StateOpen \<Longrightarrow> afterRequest (Some e) now cb
              = cb\<lparr>failures := failures cb + 1, lastFailTime := now\<rparr>"
    by (simp add: afterRequest_def onFailure_def Let_def)
  have h1: "state cb = StateHalfOpen \<Longrightarrow> beforeRequest now cb =
              (if requests cb < MaxRequests cfg
               then (None, cb\<lparr>requests := requests cb + 1\<rparr>)
               else (Some ErrTooManyRequests, cb))"
    using cfg by (simp add: beforeRequest_def)
  have h2: "state cb = StateHalfOpen \<Longrightarrow> afterRequest (Some e) now cb =
              cb\<lparr>failures := failures cb + 1, lastFailTime := now, state := StateOpen,
                 requests := 0\<rparr>"
    by (simp add: afterRequest_def onFailure_def Let_def)
  have h3: "state cb = StateHalfOpen \<Longrightarrow>
              afterRequest None now cb = cb\<lparr>state := StateClosed, failures := 0, requests := 0\<rparr>"
    by (simp add: afterRequest_def onSuccess_def)
  show ?thesis
    using cfg closed half c1 c2 c3 o1 o2 o3 h1 h2 h3 by blast
qed

text \<open>\<open>Call\<close> is the gate, then \<open>fn\<close>, then the record step: a rejected call returns the
  gate's error without running \<open>fn\<close>; an admitted call returns what \<open>fn\<close> returns and
  records it.\<close>

lemma Call_gate_fn_record:
  "Call (Some cb) t0 fn t1 w =
     (case fst (beforeRequest t0 cb) of
        Some err \<Rightarrow> (Some err, Some (snd (beforeRequest t0 cb)), w)
      | None \<Rightarrow> (fst (fn w),
                 Some (afterRequest (fst (fn w)) t1 (snd (beforeRequest t0 cb))),
                 snd (fn w)))"
  by (simp add: Call_def split: prod.splits option.splits)


section \<open>Proofs: rate limiter\<close>

lemma time_Sub_nonneg: "u \<le> t \<Longrightarrow> 0 \<le> time_Sub t u"
  by (simp add: time_Sub_def maxDuration_def minDuration_def Let_def)

lemma Seconds_nonneg: "0 \<le> d \<Longrightarrow> 0 \<le> Seconds d"
  by (simp add: Seconds_def)

lemma refill_bounds:
  assumes "0 \<le> rate rl" "0 \<le> burst rl" "0 \<le> tokens b" "lastCheck b \<le> now"
  shows "0 \<le> tokens (refill rl now b) \<and> tokens (refill rl now b) \<le> real_of_int (burst rl)
         \<and> lastCheck (refill rl now b) = now"
proof -
  have "0 \<le> Seconds (time_Sub now (lastCheck b)) * rate rl"
    using assms by (simp add: time_Sub_nonneg Seconds_nonneg)
  then have "0 \<le> tokens b + Seconds (time_Sub now (lastCheck b)) * rate rl"
    using assms(3) by linarith
  then show ?thesis
    using assms(2) by (auto simp: refill_def Let_def)
qed

lemma get_bucket_bounds:
  assumes "rl_inv t rl" "t \<le> tNew"
  shows "0 \<le> tokens (get_bucket rl k tNew) \<and> lastCheck (get_bucket rl k tNew) \<le> tNew"
proof (cases "buckets rl k")
  case None
  then show ?thesis using assms by (simp add: rl_inv_def get_bucket_def)
next
  case (Some b)
  then have "0 \<le> tokens b" "lastCheck b \<le> t"
    using assms(1) by (auto simp: rl_inv_def)
  then show ?thesis using Some assms(2) by (simp add: get_bucket_def)
qed

lemma Allow_Some: "\<exists>ok rl'. Allow (Some rl) k tNew now = (ok, Some rl')"
  by (auto simp: Allow_def Let_def)

lemma Allow_inv:
  assumes inv: "rl_inv t rl" and t1: "t \<le> tNew" and t2: "tNew \<le> now"
    and res: "Allow (Some rl) k tNew now = (ok, Some rl')"
  shows "rl_inv now rl'"
proof -
  let ?k = "bucket_key rl k"
  let ?b = "refill rl now (get_bucket rl ?k tNew)"
  have g: "0 \<le> tokens (get_bucket rl ?k tNew)" "lastCheck (get_bucket rl ?k tNew) \<le> now"
    using get_bucket_bounds [OF inv t1, of ?k] t2 by auto
  have r: "0 \<le> rate rl" "0 \<le> burst rl"
    using inv by (auto simp: rl_inv_def)
  have b: "0 \<le> tokens ?b" "tokens ?b \<le> real_of_int (burst rl)" "lastCheck ?b = now"
    using refill_bounds [OF r g] by auto
  have old: "\<And>k' b'. buckets rl k' = Some b' \<Longrightarrow>
               0 \<le> tokens b' \<and> tokens b' \<le> real_of_int (burst rl) \<and> lastCheck b' \<le> now"
    using inv t1 t2 by (fastforce simp: rl_inv_def)
  show ?thesis
  proof (cases "tokens ?b \<ge> 1")
    case True
    then have rl': "rl' = rl\<lparr>buckets := (buckets rl)(?k \<mapsto> ?b\<lparr>tokens := tokens ?b - 1\<rparr>)\<rparr>"
      using res by (simp add: Allow_def Let_def)
    show ?thesis
      unfolding rl_inv_def rl' using r b old True by (auto split: if_splits)
  next
    case False
    then have rl': "rl' = rl\<lparr>buckets := (buckets rl)(?k \<mapsto> ?b)\<rparr>"
      using res by (simp add: Allow_def Let_def)
    show ?thesis
      unfolding rl_inv_def rl' using r b old by (auto split: if_splits)
  qed
qed

lemma Cleanup_inv:
  assumes "rl_inv t rl" "t \<le> now" "TokenBucketLimiter_Cleanup (Some rl) now = Some rl'"
  shows "rl_inv now rl'"
  using assms
  by (fastforce simp: rl_inv_def TokenBucketLimiter_Cleanup_def split: option.splits if_splits)

lemma rl_run_inv:
  "rl_inv t rl \<Longrightarrow> sorted (t # concat (map op_clock ops)) \<Longrightarrow>
     \<exists>t' rl'. rl_run ops (Some rl) = Some rl' \<and> rl_inv t' rl'"
proof (induction ops arbitrary: t rl)
  case Nil
  then show ?case by (auto simp: rl_run_def)
next
  case (Cons x ops)
  show ?case
  proof (cases x)
    case (OpAllow k tNew now)
    obtain ok rl1 where a: "Allow (Some rl) k tNew now = (ok, Some rl1)"
      using Allow_Some by blast
    have le: "t \<le> tNew" "tNew \<le> now" and rest: "sorted (now # concat (map op_clock ops))"
      using Cons.prems(2) OpAllow by auto
    have "rl_inv now rl1"
      using Allow_inv [OF Cons.prems(1) le a] .
    from Cons.IH [OF this rest] show ?thesis
      using a OpAllow by (simp add: rl_run_def)
  next
    case (OpCleanup now)
    obtain rl1 where c: "TokenBucketLimiter_Cleanup (Some rl) now = Some rl1"
      by (simp add: TokenBucketLimiter_Cleanup_def)
    have le: "t \<le> now" and rest: "sorted (now # concat (map op_clock ops))"
      using Cons.prems(2) OpCleanup by auto
    have "rl_inv now rl1"
      using Cleanup_inv [OF Cons.prems(1) le c] .
    from Cons.IH [OF this rest] show ?thesis
      using c OpCleanup by (simp add: rl_run_def)
  qed
qed

lemma rl_inv_new:
  "NewRateLimiter cfg = Some rl \<Longrightarrow> 0 \<le> RequestsPerSecond cfg \<Longrightarrow> 0 \<le> BurstSize cfg
     \<Longrightarrow> rl_inv t rl"
  by (auto simp: NewRateLimiter_def rl_inv_def split: if_splits)

lemma rl_step_burst: "rl_step (Some rl) x = Some rl' \<Longrightarrow> burst rl' = burst rl"
  by (cases x) (auto simp: Allow_def Let_def TokenBucketLimiter_Cleanup_def split: if_splits)

lemma rl_step_Some: "\<exists>rl'. rl_step (Some rl) x = Some rl'"
  by (cases x) (auto simp: Allow_def Let_def TokenBucketLimiter_Cleanup_def)

lemma rl_run_burst: "rl_run ops (Some rl) = Some rl' \<Longrightarrow> burst rl' = burst rl"
proof (induction ops arbitrary: rl)
  case Nil
  then show ?case by (simp add: rl_run_def)
next
  case (Cons x ops)
  obtain rl1 where s: "rl_step (Some rl) x = Some rl1"
    using rl_step_Some by blast
  then have "rl_run ops (Some rl1) = Some rl'"
    using Cons.prems by (simp add: rl_run_def)
  then show ?case
    using Cons.IH rl_step_burst [OF s] by simp
qed

lemma sorted_lower_bound: "sorted (xs :: int list) \<Longrightarrow> \<exists>t. sorted (t # xs)"
  by (cases xs) auto

lemma Allow_refill_take:
  "Allow (Some rl) key0 tNew now =
     (let k = bucket_key rl key0;
          b = get_bucket rl k tNew;
          refilled = min (real_of_int (burst rl))
                         (tokens b + Seconds (time_Sub now (lastCheck b)) * rate rl)
      in (refilled \<ge> 1,
          Some (rl\<lparr>buckets := (buckets rl)(k \<mapsto>
                  \<lparr>tokens = (if refilled \<ge> 1 then refilled - 1 else refilled),
                   lastCheck = now\<rparr>)\<rparr>)))"
proof -
  define b where "b = get_bucket rl (bucket_key rl key0) tNew"
  define refilled where "refilled = min (real_of_int (burst rl))
                           (tokens b + Seconds (time_Sub now (lastCheck b)) * rate rl)"
  have r: "refill rl now b = \<lparr>tokens = refilled, lastCheck = now\<rparr>"
    by (cases b) (simp add: refill_def Let_def min_def refilled_def)
  have "Allow (Some rl) key0 tNew now =
          (refilled \<ge> 1,
           Some (rl\<lparr>buckets := (buckets rl)(bucket_key rl key0 \<mapsto>
                   \<lparr>tokens = (if refilled \<ge> 1 then refilled - 1 else refilled),
                    lastCheck = now\<rparr>)\<rparr>))"
    using r unfolding b_def by (simp add: Allow_def Let_def)
  then show ?thesis
    unfolding Let_def b_def [symmetric] refilled_def [symmetric] .
qed

text \<open>
  Claim C2.  A call \<open>Allow(key)\<close> on an enabled limiter \<open>rl\<close> first refills the key's
  bucket (the existing one, or a fresh one holding \<open>burst\<close> tokens) to
  \<open>min(burst, tokens + (now - lastCheck) \<times> rate)\<close> and sets \<open>lastCheck = now\<close>; it
  returns true and takes one token exactly when the refilled amount is at least 1, and
  returns false, taking nothing, otherwise.  Consequently, for a limiter built from a
  configuration with a non-negative rate and burst and driven by a clock that does not run
  backwards, after every history of \<open>Allow\<close> and \<open>Cleanup\<close> calls every bucket holds
  between 0 and \<open>burst\<close> tokens.
\<close>

theorem allow_refills_and_takes_one_token:
  "Allow (Some rl) key0 tNew now =
     (let k = bucket_key rl key0;
          b = get_bucket rl k tNew;
          refilled = min (real_of_int (burst rl))
                         (tokens b + Seconds (time_Sub now (lastCheck b)) * rate rl)
      in (refilled \<ge> 1,
          Some (rl\<lparr>buckets := (buckets rl)(k \<mapsto>
                  \<lparr>tokens = (if refilled \<ge> 1 then refilled - 1 else refilled),
                   lastCheck = now\<rparr>)\<rparr>)))
   \<and> (NewRateLimiter cfg = Some rl0 \<and> 0 \<le> RequestsPerSecond cfg \<and> 0 \<le> BurstSize cfg
        \<and> clock_monotone ops \<longrightarrow>
        (\<exists>rl'. rl_run ops (Some rl0) = Some rl' \<and> burst rl' = BurstSize cfg
           \<and> (\<forall>k b. buckets rl' k = Some b \<longrightarrow>
                  0 \<le> tokens b \<and> tokens b \<le> real_of_int (BurstSize cfg))))"
proof -
  have inv: "\<exists>rl'. rl_run ops (Some rl0) = Some rl' \<and> burst rl' = BurstSize cfg
               \<and> (\<forall>k b. buckets rl' k = Some b \<longrightarrow>
                      0 \<le> tokens b \<and> tokens b \<le> real_of_int (BurstSize cfg))"
    if new: "NewRateLimiter cfg = Some rl0" and nn: "0 \<le> RequestsPerSecond cfg" "0 \<le> BurstSize cfg"
      and clock: "clock_monotone ops"
  proof -
    obtain t where t: "sorted (t # concat (map op_clock ops))"
      using clock sorted_lower_bound unfolding clock_monotone_def by blast
    have "rl_inv t rl0"
      using rl_inv_new [OF new nn] .
    from rl_run_inv [OF this t] obtain t' rl'
      where r: "rl_run ops (Some rl0) = Some rl'" and i: "rl_inv t' rl'" by blast
    have b0: "burst rl0 = BurstSize cfg"
      using new by (auto simp: NewRateLimiter_def split: if_splits)
    have "burst rl' = burst rl0"
      using r rl_run_burst by blast
    then show ?thesis
      using r i b0 by (auto simp: rl_inv_def)
  qed
  show ?thesis
    using Allow_refill_take [of rl key0 tNew now] inv by blast
qed

theorem allow_refills_and_takes_one_token_witness:
  "(\<exists>rl'. rl_run [OpAllow ''10.0.0.1'' 0 0, OpAllow ''10.0.0.1'' 0 100000000]
             (Some \<lparr>rate = 1, burst = 1, perIP = True, buckets = Map.empty\<rparr>) = Some rl'
          \<and> burst rl' = 1
          \<and> (\<forall>k b. buckets rl' k = Some b \<longrightarrow> 0 \<le> tokens b \<and> tokens b \<le> 1))
   \<and> fst (Allow (Some \<lparr>rate = 1, burst = 1, perIP = True, buckets = Map.empty\<rparr>)
              ''10.0.0.1'' 0 0)"
proof -
  let ?cfg = "\<lparr>rl_Enabled = True, RequestsPerSecond = 1, BurstSize = 1, PerIP = True,
               rl_CleanupInterval = 60000000000\<rparr>"
  let ?init = "\<lparr>rate = 1, burst = 1, perIP = True, buckets = Map.empty\<rparr>"
  let ?ops = "[OpAllow ''10.0.0.1'' 0 0, OpAllow ''10.0.0.1'' 0 100000000]"
  have new: "NewRateLimiter ?cfg = Some ?init"
    by (simp add: NewRateLimiter_def)
  have clock: "clock_monotone ?ops"
    by (simp add: clock_monotone_def)
  have sub: "time_Sub 0 0 = 0"
    by (simp add: time_Sub_def maxDuration_def minDuration_def)
  show ?thesis
    using allow_refills_and_takes_one_token [of ?init "''10.0.0.1''" 0 0 ?cfg ?init ?ops]
      new clock sub
    by (simp add: bucket_key_def get_bucket_def Seconds_def Let_def)
qed

section \<open>Proofs: cache\<close>

lemma removeElement_fields [simp]:
  "maxSize (removeElement c e) = maxSize c"
  "ttl (removeElement c e) = ttl c"
  "elems (removeElement c e) = elems c"
  "nextElem (removeElement c e) = nextElem c"
  "evictList (removeElement c e) = remove1 e (evictList c)"
  "items (removeElement c e) = (items c)(entry_key (elems c e) := None)"
  by (simp_all add: removeElement_def list_Remove_def)

lemma removeElement_wf:
  assumes wf: "cache_wf c" and e: "e \<in> set (evictList c)"
  shows "cache_wf (removeElement c e)"
proof -
  have d: "distinct (evictList c)"
    and l: "\<And>x. x \<in> set (evictList c) \<Longrightarrow> x < nextElem c \<and> items c (entry_key (elems c x)) = Some x"
    and i: "\<And>k x. items c k = Some x \<Longrightarrow> x \<in> set (evictList c) \<and> entry_key (elems c x) = k"
    using wf by (auto simp: cache_wf_def)
  have 1: "distinct (remove1 e (evictList c))"
    using d by simp
  have 2: "x < nextElem c \<and> ((items c)(entry_key (elems c e) := None)) (entry_key (elems c x)) = Some x"
    if "x \<in> set (remove1 e (evictList c))" for x
  proof -
    have xin: "x \<in> set (evictList c)" and ne: "x \<noteq> e"
      using that d by auto
    have "entry_key (elems c x) \<noteq> entry_key (elems c e)"
      using l [OF xin] l [OF e] ne by (metis option.inject)
    then show ?thesis using l [OF xin] by simp
  qed
  have 3: "x \<in> set (remove1 e (evictList c)) \<and> entry_key (elems c x) = k"
    if "((items c)(entry_key (elems c e) := None)) k = Some x" for k x
  proof -
    have k: "k \<noteq> entry_key (elems c e)" and ix: "items c k = Some x"
      using that by (auto split: if_splits)
    have "x \<noteq> e" using i [OF ix] k by auto
    then show ?thesis using i [OF ix] d by auto
  qed
  show ?thesis
    unfolding cache_wf_def removeElement_fields using 1 2 3 by blast
qed

lemma removeElement_inv:
  "cache_inv c \<Longrightarrow> e \<in> set (evictList c) \<Longrightarrow> cache_inv (removeElement c e)"
  by (auto simp: cache_inv_def removeElement_wf list_Len_def length_remove1)

lemma removeElements_inv:
  "cache_inv c \<Longrightarrow> distinct es \<Longrightarrow> set es \<subseteq> set (evictList c)
     \<Longrightarrow> cache_inv (foldl removeElement c es)"
proof (induction es arbitrary: c)
  case Nil
  then show ?case by simp
next
  case (Cons e es)
  have "cache_inv (removeElement c e)"
    using Cons.prems by (simp add: removeElement_inv)
  moreover have "set es \<subseteq> set (evictList (removeElement c e))"
  proof
    fix x assume x: "x \<in> set es"
    then have "x \<noteq> e" "x \<in> set (evictList c)"
      using Cons.prems by auto
    then show "x \<in> set (evictList (removeElement c e))"
      by (simp add: in_set_remove1)
  qed
  ultimately show ?case
    using Cons.IH Cons.prems(2) by simp
qed

lemma MoveToFront_set: "set (list_MoveToFront e l) = set l"
proof (cases "e \<in> set l")
  case False
  then show ?thesis by (simp add: list_MoveToFront_def)
next
  case True
  have "x \<in> set (e # remove1 e l) \<longleftrightarrow> x \<in> set l" for x
    using True in_set_remove1 [of x e l] by (cases "x = e") auto
  then show ?thesis
    using True by (auto simp: list_MoveToFront_def)
qed

lemma MoveToFront_distinct: "distinct l \<Longrightarrow> distinct (list_MoveToFront e l)"
  by (auto simp: list_MoveToFront_def)

lemma MoveToFront_length: "length (list_MoveToFront e l) = length l"
  by (auto simp: list_MoveToFront_def length_remove1 dest: length_pos_if_in_set)

lemma MoveToFront_inv:
  "cache_inv c \<Longrightarrow> cache_inv (c\<lparr>evictList := list_MoveToFront e (evictList c)\<rparr>)"
  by (simp add: cache_inv_def cache_wf_def MoveToFront_set MoveToFront_distinct
        MoveToFront_length list_Len_def)

lemma cache_Get_inv:
  assumes "cache_inv c"
  shows "\<exists>c'. snd (LRUCache_Get (Some c) k now) = Some c' \<and> cache_inv c'"
proof (cases "items c k")
  case None
  then show ?thesis using assms by (simp add: LRUCache_Get_def)
next
  case (Some e)
  then have "e \<in> set (evictList c)"
    using assms by (auto simp: cache_inv_def cache_wf_def)
  then show ?thesis
    using Some assms
    by (auto simp: LRUCache_Get_def Let_def removeElement_inv MoveToFront_inv)
qed

lemma Set_existing_inv:
  assumes inv: "cache_inv c" and it: "items c k = Some e"
  shows "cache_inv (c\<lparr>evictList := list_MoveToFront e (evictList c),
                      elems := (elems c)(e := (elems c e)\<lparr>entry_value := v, expireTime := t\<rparr>)\<rparr>)"
  using inv
  by (auto simp: cache_inv_def cache_wf_def MoveToFront_set MoveToFront_distinct
        MoveToFront_length list_Len_def)

lemma Set_new_wf:
  assumes inv: "cache_wf c" and it: "items c k = None"
  shows "cache_wf (c\<lparr>elems := (elems c)(nextElem c := \<lparr>entry_key = k, entry_value = v,
                                                       expireTime = t\<rparr>),
                     nextElem := nextElem c + 1,
                     evictList := list_PushFront (nextElem c) (evictList c),
                     items := (items c)(k \<mapsto> nextElem c)\<rparr>)"
proof -
  have d: "distinct (evictList c)"
    and l: "\<And>x. x \<in> set (evictList c) \<Longrightarrow> x < nextElem c \<and> items c (entry_key (elems c x)) = Some x"
    and i: "\<And>k x. items c k = Some x \<Longrightarrow> x \<in> set (evictList c) \<and> entry_key (elems c x) = k"
    using inv by (auto simp: cache_wf_def)
  have fresh: "nextElem c \<notin> set (evictList c)"
    using l by auto
  have keys: "entry_key (elems c x) \<noteq> k" if "x \<in> set (evictList c)" for x
    using l [OF that] it by auto
  show ?thesis
    unfolding cache_wf_def list_PushFront_def
    using d fresh keys l i by (auto simp: less_Suc_eq)
qed

lemma evictOldest_inv_after_push:
  assumes wf: "cache_wf c"
    and len: "list_Len (evictList c) \<le> max 0 (maxSize c) + 1"
  shows "cache_inv (if list_Len (evictList c) > maxSize c then evictOldest c else c)"
proof (cases "list_Len (evictList c) > maxSize c")
  case False
  then show ?thesis using wf by (simp add: cache_inv_def)
next
  case True
  show ?thesis
  proof (cases "evictList c = []")
    case Nil: True
    then have "evictOldest c = c"
      by (simp add: evictOldest_def list_Back_def)
    then show ?thesis
      using wf Nil by (simp add: cache_inv_def list_Len_def)
  next
    case ne: False
    then have ev: "evictOldest c = removeElement c (last (evictList c))"
      by (simp add: evictOldest_def list_Back_def)
    have "cache_wf (removeElement c (last (evictList c)))"
      using removeElement_wf [OF wf] ne by simp
    moreover have "length (remove1 (last (evictList c)) (evictList c)) = length (evictList c) - 1"
      using ne by (simp add: length_remove1)
    ultimately show ?thesis
      using True ev len ne by (auto simp: cache_inv_def list_Len_def)
  qed
qed

lemma cache_Set_inv:
  assumes inv: "cache_inv c"
  shows "\<exists>c'. LRUCache_Set (Some c) k v now = Some c' \<and> cache_inv c'"
proof (cases "items c k")
  case (Some e)
  then show ?thesis
    using Set_existing_inv [OF inv Some] by (simp add: LRUCache_Set_def)
next
  case None
  let ?c1 = "c\<lparr>elems := (elems c)(nextElem c := \<lparr>entry_key = k, entry_value = v,
                                                  expireTime = now + ttl c\<rparr>),
                nextElem := nextElem c + 1,
                evictList := list_PushFront (nextElem c) (evictList c),
                items := (items c)(k \<mapsto> nextElem c)\<rparr>"
  have wf: "cache_wf ?c1"
    using Set_new_wf [OF _ None] inv by (simp add: cache_inv_def)
  have len: "list_Len (evictList ?c1) \<le> max 0 (maxSize ?c1) + 1"
    using inv by (auto simp: cache_inv_def list_Len_def list_PushFront_def)
  have "cache_inv (if list_Len (evictList ?c1) > maxSize ?c1 then evictOldest ?c1 else ?c1)"
    using evictOldest_inv_after_push [OF wf len] .
  then show ?thesis
    using None by (auto simp: LRUCache_Set_def Let_def split: if_splits)
qed

lemma cache_Delete_inv:
  assumes "cache_inv c"
  shows "\<exists>c'. LRUCache_Delete (Some c) k = Some c' \<and> cache_inv c'"
proof (cases "items c k")
  case None
  then show ?thesis using assms by (simp add: LRUCache_Delete_def)
next
  case (Some e)
  then have "e \<in> set (evictList c)"
    using assms by (auto simp: cache_inv_def cache_wf_def)
  then show ?thesis
    using Some assms by (simp add: LRUCache_Delete_def removeElement_inv)
qed

lemma cache_Clear_inv:
  "cache_inv c \<Longrightarrow> \<exists>c'. LRUCache_Clear (Some c) = Some c' \<and> cache_inv c'"
  by (simp add: LRUCache_Clear_def cache_inv_def cache_wf_def list_Len_def)

lemma cache_Cleanup_inv:
  assumes "cache_inv c"
  shows "\<exists>c'. LRUCache_Cleanup (Some c) now = Some c' \<and> cache_inv c'"
proof -
  have "distinct (evictList c)"
    using assms by (simp add: cache_inv_def cache_wf_def)
  then have "distinct (filter (\<lambda>e. now > expireTime (elems c e)) (rev (evictList c)))"
    by simp
  moreover have "set (filter (\<lambda>e. now > expireTime (elems c e)) (rev (evictList c)))
                   \<subseteq> set (evictList c)"
    by auto
  ultimately show ?thesis
    using removeElements_inv [OF assms] by (simp add: LRUCache_Cleanup_def Let_def)
qed

lemma cache_step_inv:
  "cache_inv c \<Longrightarrow> \<exists>c'. cache_step (Some c) x = Some c' \<and> cache_inv c'"
  by (cases x) (simp_all add: cache_Get_inv cache_Set_inv cache_Delete_inv cache_Clear_inv cache_Cleanup_inv)

lemma cache_run_inv:
  "cache_inv c \<Longrightarrow> \<exists>c'. cache_run ops (Some c) = Some c' \<and> cache_inv c'"
proof (induction ops arbitrary: c)
  case Nil
  then show ?case by (simp add: cache_run_def)
next
  case (Cons x ops)
  obtain c1 where "cache_step (Some c) x = Some c1" "cache_inv c1"
    using cache_step_inv [OF Cons.prems] by blast
  then show ?case
    using Cons.IH [of c1] by (simp add: cache_run_def)
qed

lemma cache_inv_new:
  "NewCache cfg = Some c \<Longrightarrow> cache_inv c \<and> maxSize c = MaxSize cfg"
  by (auto simp: NewCache_def cache_inv_def cache_wf_def list_Len_def split: if_splits)
lemma cache_wf_iff:
  "cache_wf c \<Longrightarrow>
     (items c k = Some e \<longleftrightarrow> e \<in> set (evictList c) \<and> entry_key (elems c e) = k)"
  unfolding cache_wf_def by blast

lemma cache_wf_dom:
  assumes "cache_wf c"
  shows "dom (items c) = (\<lambda>e. entry_key (elems c e)) ` set (evictList c)"
proof (rule set_eqI)
  fix k
  show "k \<in> dom (items c) \<longleftrightarrow> k \<in> (\<lambda>e. entry_key (elems c e)) ` set (evictList c)"
    using cache_wf_iff [OF assms, of k] by (auto simp: dom_def)
qed

lemma cache_wf_card:
  assumes wf: "cache_wf c"
  shows "card (dom (items c)) = length (evictList c)"
proof -
  have inj: "inj_on (\<lambda>e. entry_key (elems c e)) (set (evictList c))"
  proof (rule inj_onI)
    fix x y
    assume x: "x \<in> set (evictList c)" and y: "y \<in> set (evictList c)"
      and eq: "entry_key (elems c x) = entry_key (elems c y)"
    have "items c (entry_key (elems c x)) = Some x" "items c (entry_key (elems c y)) = Some y"
      using wf x y by (auto simp: cache_wf_def)
    then show "x = y" using eq by (metis option.inject)
  qed
  have "card (dom (items c)) = card (set (evictList c))"
    using cache_wf_dom [OF wf] card_image [OF inj] by simp
  also have "\<dots> = length (evictList c)"
    using wf by (simp add: cache_wf_def distinct_card)
  finally show ?thesis .
qed

lemma foldl_removeElement_fields:
  "maxSize (foldl removeElement c es) = maxSize c
   \<and> ttl (foldl removeElement c es) = ttl c
   \<and> elems (foldl removeElement c es) = elems c
   \<and> (\<forall>k e. items (foldl removeElement c es) k = Some e \<longrightarrow> items c k = Some e)"
proof (induction es arbitrary: c)
  case Nil
  then show ?case by simp
next
  case (Cons x es)
  let ?c = "removeElement c x"
  have f: "maxSize (foldl removeElement ?c es) = maxSize c"
    "ttl (foldl removeElement ?c es) = ttl c"
    "elems (foldl removeElement ?c es) = elems c"
    using Cons.IH [of ?c] by simp_all
  have i: "items ?c k = Some e" if "items (foldl removeElement ?c es) k = Some e" for k e
    using Cons.IH [of ?c] that by blast
  have j: "items c k = Some e" if "items ?c k = Some e" for k e
    using that by (simp split: if_splits)
  show ?case
    unfolding foldl_Cons using f i j by blast
qed

lemma evictOldest_fields:
  "maxSize (evictOldest c) = maxSize c \<and> ttl (evictOldest c) = ttl c"
  by (simp add: evictOldest_def split: option.splits)

lemma Get_maxSize:
  "snd (LRUCache_Get (Some c) k now) = Some c' \<Longrightarrow> maxSize c' = maxSize c \<and> ttl c' = ttl c"
  by (auto simp: LRUCache_Get_def Let_def split: option.splits if_splits)

lemma Set_maxSize:
  "LRUCache_Set (Some c) k v now = Some c' \<Longrightarrow> maxSize c' = maxSize c \<and> ttl c' = ttl c"
  by (auto simp: LRUCache_Set_def Let_def evictOldest_fields split: option.splits if_splits)

lemma Delete_maxSize:
  "LRUCache_Delete (Some c) k = Some c' \<Longrightarrow> maxSize c' = maxSize c \<and> ttl c' = ttl c"
  by (auto simp: LRUCache_Delete_def split: option.splits)

lemma Clear_maxSize:
  "LRUCache_Clear (Some c) = Some c' \<Longrightarrow> maxSize c' = maxSize c \<and> ttl c' = ttl c"
  by (auto simp: LRUCache_Clear_def)

lemma Cleanup_maxSize:
  "LRUCache_Cleanup (Some c) now = Some c' \<Longrightarrow> maxSize c' = maxSize c \<and> ttl c' = ttl c"
  by (auto simp: LRUCache_Cleanup_def Let_def foldl_removeElement_fields)

lemma cache_step_maxSize:
  "cache_step (Some c) x = Some c' \<Longrightarrow> maxSize c' = maxSize c \<and> ttl c' = ttl c"
  by (cases x)
     (simp_all add: Get_maxSize Set_maxSize Delete_maxSize Clear_maxSize Cleanup_maxSize)

lemma cache_run_reach:
  assumes inv: "cache_inv c"
  shows "\<exists>c'. cache_run ops (Some c) = Some c' \<and> cache_inv c' \<and> maxSize c' = maxSize c
              \<and> ttl c' = ttl c"
  using inv
proof (induction ops arbitrary: c)
  case Nil
  then show ?case by (simp add: cache_run_def)
next
  case (Cons x ops)
  obtain c1 where s: "cache_step (Some c) x = Some c1" and i: "cache_inv c1"
    using cache_step_inv [OF Cons.prems] by blast
  have "maxSize c1 = maxSize c \<and> ttl c1 = ttl c"
    using cache_step_maxSize [OF s] .
  then show ?case
    using Cons.IH [OF i] s by (simp add: cache_run_def)
qed

lemma Get_hit_unexpired:
  assumes "LRUCache_Get (Some c) k now = ((v, True), cp)"
  shows "\<exists>e. items c k = Some e \<and> v = entry_value (elems c e) \<and> now \<le> expireTime (elems c e)"
  using assms by (auto simp: LRUCache_Get_def Let_def split: option.splits if_splits)

lemma Get_expired_miss:
  assumes wf: "cache_wf c" and it: "items c k = Some e" and ex: "expireTime (elems c e) < now"
  shows "\<exists>c'. LRUCache_Get (Some c) k now = (([], False), Some c')
              \<and> items c' k = None \<and> e \<notin> set (evictList c')"
proof -
  have g: "LRUCache_Get (Some c) k now = (([], False), Some (removeElement c e))"
    using it ex by (simp add: LRUCache_Get_def Let_def)
  have "entry_key (elems c e) = k" "distinct (evictList c)"
    using wf it by (auto simp: cache_wf_def)
  then have "items (removeElement c e) k = None" "e \<notin> set (evictList (removeElement c e))"
    by simp_all
  then show ?thesis using g by blast
qed

text \<open>
  Claim C3, as it stands, fails at a size limit that the configuration accepts: with
  \<open>MaxSize = -1\<close> the list of the new cache has length 0, which exceeds \<open>maxSize\<close>.
\<close>

theorem cache_negative_maxSize_counterexample:
  "\<not> LRUCache_Size (NewCache \<lparr>cache_Enabled = True, MaxSize = - 1, TTL = 300000000000,
                                  cache_CleanupInterval = 60000000000\<rparr>)
       \<le> MaxSize \<lparr>cache_Enabled = True, MaxSize = - 1, TTL = 300000000000,
                     cache_CleanupInterval = 60000000000\<rparr>"
  by (simp add: NewCache_def LRUCache_Size_def list_Len_def)

text \<open>
  Claim C3, amended.  For an enabled cache, after every history of \<open>Get\<close>, \<open>Set\<close>,
  \<open>Delete\<close>, \<open>Clear\<close> and \<open>Cleanup\<close> calls: a key is indexed to an element exactly when
  that element is in the eviction list and carries that key, so the index and the list
  describe the same key set and have the same size; the list is never longer than
  \<open>maxSize\<close>, or than 0 when \<open>maxSize\<close> is negative (such a cache stays empty); a \<open>Get\<close>
  that reports a hit returns the bytes of an entry whose expiry time has not passed; and a
  \<open>Get\<close> of an entry whose expiry time has passed reports a miss and removes the entry
  from the index and from the list.
\<close>

theorem cache_index_list_agree_and_bounded:
  assumes new: "NewCache cfg = Some c0"
  shows "\<exists>c. cache_run ops (Some c0) = Some c
     \<and> (\<forall>k e. items c k = Some e \<longleftrightarrow> e \<in> set (evictList c) \<and> entry_key (elems c e) = k)
     \<and> dom (items c) = (\<lambda>e. entry_key (elems c e)) ` set (evictList c)
     \<and> card (dom (items c)) = length (evictList c)
     \<and> LRUCache_Size (Some c) = int (length (evictList c))
     \<and> LRUCache_Size (Some c) \<le> max 0 (MaxSize cfg)
     \<and> (\<forall>k now v cp. LRUCache_Get (Some c) k now = ((v, True), cp) \<longrightarrow>
            (\<exists>e. items c k = Some e \<and> v = entry_value (elems c e)
                 \<and> now \<le> expireTime (elems c e)))
     \<and> (\<forall>k now e. items c k = Some e \<and> expireTime (elems c e) < now \<longrightarrow>
            (\<exists>c'. LRUCache_Get (Some c) k now = (([], False), Some c')
                  \<and> items c' k = None \<and> e \<notin> set (evictList c')))"
proof -
  have i0: "cache_inv c0" and m0: "maxSize c0 = MaxSize cfg"
    using cache_inv_new [OF new] by auto
  obtain c where r: "cache_run ops (Some c0) = Some c" and i: "cache_inv c"
    and m: "maxSize c = maxSize c0"
    using cache_run_reach [OF i0] by blast
  have wf: "cache_wf c"
    using i by (simp add: cache_inv_def)
  have a: "\<forall>k e. items c k = Some e \<longleftrightarrow> e \<in> set (evictList c) \<and> entry_key (elems c e) = k"
    using cache_wf_iff [OF wf] by blast
  have b: "dom (items c) = (\<lambda>e. entry_key (elems c e)) ` set (evictList c)"
    using cache_wf_dom [OF wf] .
  have c: "card (dom (items c)) = length (evictList c)"
    using cache_wf_card [OF wf] .
  have s: "LRUCache_Size (Some c) = int (length (evictList c))"
    by (simp add: LRUCache_Size_def list_Len_def)
  have d: "LRUCache_Size (Some c) \<le> max 0 (MaxSize cfg)"
    using i m m0 by (simp add: LRUCache_Size_def cache_inv_def)
  have e: "\<forall>k now v cp. LRUCache_Get (Some c) k now = ((v, True), cp) \<longrightarrow>
            (\<exists>e. items c k = Some e \<and> v = entry_value (elems c e)
                 \<and> now \<le> expireTime (elems c e))"
    using Get_hit_unexpired by blast
  have f: "\<forall>k now e. items c k = Some e \<and> expireTime (elems c e) < now \<longrightarrow>
            (\<exists>c'. LRUCache_Get (Some c) k now = (([], False), Some c')
                  \<and> items c' k = None \<and> e \<notin> set (evictList c'))"
    using Get_expired_miss [OF wf] by blast
  show ?thesis
    using r a b c s d e f by blast
qed

theorem cache_index_list_agree_and_bounded_witness:
  "(\<exists>c. cache_run [CSet ''GET:/a'' [1] 0, CSet ''GET:/b'' [2] 1, CGet ''GET:/b'' 5]
            (Some \<lparr>maxSize = 1, ttl = 10, items = Map.empty, evictList = [],
                   elems = (\<lambda>_. \<lparr>entry_key = [], entry_value = [], expireTime = 0\<rparr>),
                   nextElem = 0\<rparr>) = Some c
     \<and> card (dom (items c)) = length (evictList c)
     \<and> LRUCache_Size (Some c) \<le> 1)
   \<and> (\<exists>c. cache_run [CSet ''GET:/a'' [1] 0]
            (Some \<lparr>maxSize = - 1, ttl = 10, items = Map.empty, evictList = [],
                   elems = (\<lambda>_. \<lparr>entry_key = [], entry_value = [], expireTime = 0\<rparr>),
                   nextElem = 0\<rparr>) = Some c
     \<and> LRUCache_Size (Some c) \<le> 0)"
proof -
  let ?cfg = "\<lparr>cache_Enabled = True, MaxSize = 1, TTL = 10, cache_CleanupInterval = 60\<rparr>"
  let ?init = "\<lparr>maxSize = 1, ttl = 10, items = Map.empty, evictList = [],
                elems = (\<lambda>_. \<lparr>entry_key = [], entry_value = [], expireTime = 0\<rparr>),
                nextElem = 0\<rparr>"
  let ?ncfg = "\<lparr>cache_Enabled = True, MaxSize = - 1, TTL = 10, cache_CleanupInterval = 60\<rparr>"
  let ?ninit = "\<lparr>maxSize = - 1, ttl = 10, items = Map.empty, evictList = [],
                 elems = (\<lambda>_. \<lparr>entry_key = [], entry_value = [], expireTime = 0\<rparr>),
                 nextElem = 0\<rparr>"
  have new: "NewCache ?cfg = Some ?init" and nnew: "NewCache ?ncfg = Some ?ninit"
    by (simp_all add: NewCache_def)
  have pos: "\<exists>c. cache_run [CSet ''GET:/a'' [1] 0, CSet ''GET:/b'' [2] 1, CGet ''GET:/b'' 5]
                    (Some ?init) = Some c
               \<and> card (dom (items c)) = length (evictList c)
               \<and> LRUCache_Size (Some c) \<le> 1"
    using cache_index_list_agree_and_bounded [OF new,
        of "[CSet ''GET:/a'' [1] 0, CSet ''GET:/b'' [2] 1, CGet ''GET:/b'' 5]"]
    by auto
  have neg: "\<exists>c. cache_run [CSet ''GET:/a'' [1] 0] (Some ?ninit) = Some c
               \<and> LRUCache_Size (Some c) \<le> 0"
    using cache_index_list_agree_and_bounded [OF nnew, of "[CSet ''GET:/a'' [1] 0]"]
    by auto
  show ?thesis
    using pos neg by blast
qed







text \<open>
  Claim C10.  On a \<open>nil\<close> cache every public operation returns at once: \<open>Get\<close> reports
  \<open>(nil, false)\<close> for every key, \<open>Set\<close>, \<open>Delete\<close>, \<open>Clear\<close> and \<open>Cleanup\<close> do nothing
  (the cache stays \<open>nil\<close>), and \<open>Size\<close> is 0.
\<close>

theorem nil_cache_operations_are_total:
  "LRUCache_Get None k now = (([], False), None)
   \<and> LRUCache_Set None k v now = None
   \<and> LRUCache_Delete None k = None
   \<and> LRUCache_Clear None = None
   \<and> LRUCache_Cleanup None now = None
   \<and> LRUCache_Size None = 0
   \<and> cache_run ops None = None"
proof -
  have "cache_run ops None = None"
    unfolding cache_run_def
  proof (induction ops)
    case Nil
    then show ?case by simp
  next
    case (Cons x ops)
    have "cache_step None x = None"
      by (cases x)
         (simp_all add: LRUCache_Get_def LRUCache_Set_def LRUCache_Delete_def
            LRUCache_Clear_def LRUCache_Cleanup_def)
    then show ?case using Cons by simp
  qed
  then show ?thesis
    by (simp add: LRUCache_Get_def LRUCache_Set_def LRUCache_Delete_def LRUCache_Clear_def
          LRUCache_Cleanup_def LRUCache_Size_def)
qed

section \<open>Proofs: load balancers\<close>

lemma unat_of_nat_len64: "n < 2 ^ 63 \<Longrightarrow> unat (of_nat n :: 64 word) = n"
  by (rule of_nat_inverse [OF refl]) simp

lemma rr_index:
  assumes n: "length bs < 2 ^ 63" and s: "unat start < length bs" and i: "i < length bs"
  shows "unat ((start + of_nat i) mod (of_nat (length bs) :: 64 word))
           = (unat start + i) mod length bs"
proof -
  have ui: "unat (of_nat i :: 64 word) = i"
    using unat_of_nat_len64 [of i] i n by simp
  have un: "unat (of_nat (length bs) :: 64 word) = length bs"
    using unat_of_nat_len64 [OF n] .
  have "unat start + unat (of_nat i :: 64 word) < 2 ^ 64"
    using s i n ui by simp
  then have "unat (start + of_nat i) = unat start + i"
    using unat_add_lem [of start "of_nat i"] ui by simp
  then show ?thesis
    by (simp add: unat_mod un)
qed

lemma rr_scan_find:
  assumes n: "length bs < 2 ^ 63" and s: "unat start < length bs"
  shows "rr_scan bs start i =
           (case List.find (\<lambda>j. Alive (bs ! j))
                   (map (\<lambda>i. (unat start + i) mod length bs) [i..<length bs]) of
              None \<Rightarrow> NoBackend
            | Some j \<Rightarrow> Selected j)"
proof (induction "length bs - i" arbitrary: i)
  case 0
  then have "\<not> i < length bs" by simp
  then show ?case by simp
next
  case (Suc d)
  then have i: "i < length bs" by simp
  have d: "d = length bs - (i + 1)" using Suc.hyps(2) by simp
  have upt: "[i..<length bs] = i # [i + 1..<length bs]"
    using i by (simp add: upt_conv_Cons)
  have idx: "unat ((start + of_nat i) mod (of_nat (length bs) :: 64 word))
               = (unat start + i) mod length bs"
    using rr_index [OF n s i] .
  show ?case
  proof (cases "Alive (bs ! ((unat start + i) mod length bs))")
    case True
    then show ?thesis
      using i idx upt by (simp add: Let_def IsAlive_def)
  next
    case False
    have "rr_scan bs start i = rr_scan bs start (i + 1)"
      using i idx False by (simp add: Let_def IsAlive_def)
    then show ?thesis
      using Suc.hyps(1) [OF d] False upt by simp
  qed
qed

lemma scan_order_set:
  assumes "0 < n"
  shows "set (map (\<lambda>i. (s + i) mod n) [0..<n]) = {0..<n}"
proof (rule set_eqI)
  fix j
  show "j \<in> set (map (\<lambda>i. (s + i) mod n) [0..<n]) \<longleftrightarrow> j \<in> {0..<n}"
  proof
    assume "j \<in> set (map (\<lambda>i. (s + i) mod n) [0..<n])"
    then show "j \<in> {0..<n}" using assms by auto
  next
    assume j: "j \<in> {0..<n}"
    let ?i = "(j + (n - s mod n)) mod n"
    have "?i < n" using assms by simp
    moreover have "(s + ?i) mod n = j"
    proof -
      have "(s + ?i) mod n = (s mod n + (j + (n - s mod n))) mod n"
        by (metis mod_add_eq mod_mod_trivial)
      also have "s mod n + (j + (n - s mod n)) = j + n"
      proof -
        have "s mod n < n" using assms by simp
        then show ?thesis by arith
      qed
      also have "(j + n) mod n = j"
        using j by simp
      finally show ?thesis .
    qed
    ultimately show "j \<in> set (map (\<lambda>i. (s + i) mod n) [0..<n])"
      by (auto simp: image_iff intro!: bexI [of _ ?i])
  qed
qed
lemma rr_next_char:
  assumes ne: "rr_backends rb \<noteq> []" and len: "length (rr_backends rb) < 2 ^ 63"
  shows "\<exists>sel rb'. RoundRobinBalancer_NextBackend rb = (sel, rb')
     \<and> rb' = rb\<lparr>current := current rb + 1\<rparr>
     \<and> sel = (case List.find (\<lambda>j. Alive (rr_backends rb ! j))
                     (map (\<lambda>i. (unat (current rb') mod length (rr_backends rb) + i)
                                   mod length (rr_backends rb))
                          [0..<length (rr_backends rb)]) of
                None \<Rightarrow> NoBackend
              | Some j \<Rightarrow> Selected j)
     \<and> (sel = NoBackend \<longleftrightarrow> (\<forall>b \<in> set (rr_backends rb). \<not> Alive b))
     \<and> (\<forall>j. sel = Selected j \<longrightarrow> j < length (rr_backends rb) \<and> Alive (rr_backends rb ! j))
     \<and> sel \<noteq> IndexPanic"
proof -
  let ?bs = "rr_backends rb"
  let ?n = "length ?bs"
  let ?start = "(current rb + 1) mod (of_nat ?n :: 64 word)"
  let ?s = "unat (current rb + 1) mod ?n"
  let ?order = "map (\<lambda>i. (?s + i) mod ?n) [0..<?n]"
  let ?found = "List.find (\<lambda>j. Alive (?bs ! j)) ?order"
  let ?sel = "case ?found of None \<Rightarrow> NoBackend | Some j \<Rightarrow> Selected j"
  have n0: "0 < ?n" using ne by simp
  have un: "unat (of_nat ?n :: 64 word) = ?n"
    using unat_of_nat_len64 [OF len] .
  have s: "unat ?start = ?s"
    by (simp add: unat_mod un)
  then have lt: "unat ?start < ?n"
    using n0 by simp
  have scan: "rr_scan ?bs ?start 0 = ?sel"
    using rr_scan_find [OF len lt, of 0] unfolding s .
  have eq: "RoundRobinBalancer_NextBackend rb = (?sel, rb\<lparr>current := current rb + 1\<rparr>)"
    using ne scan by (simp add: RoundRobinBalancer_NextBackend_def Let_def)
  have order: "set ?order = {0..<?n}"
    using scan_order_set [OF n0] .
  have none: "?found = None \<longleftrightarrow> (\<forall>b \<in> set ?bs. \<not> Alive b)"
  proof -
    have "?found = None \<longleftrightarrow> (\<forall>j \<in> set ?order. \<not> Alive (?bs ! j))"
      by (simp add: find_None_iff)
    also have "\<dots> \<longleftrightarrow> (\<forall>j < ?n. \<not> Alive (?bs ! j))"
      unfolding order by auto
    also have "\<dots> \<longleftrightarrow> (\<forall>b \<in> set ?bs. \<not> Alive b)"
      by (simp add: all_set_conv_all_nth)
    finally show ?thesis .
  qed
  have some: "j < ?n \<and> Alive (?bs ! j)" if "?found = Some j" for j
  proof -
    have "j \<in> set ?order \<and> Alive (?bs ! j)"
      using that by (auto simp: find_Some_iff)
    then show ?thesis unfolding order by simp
  qed
  have a: "?sel = NoBackend \<longleftrightarrow> (\<forall>b \<in> set ?bs. \<not> Alive b)"
    using none by (cases ?found) simp_all
  have b: "\<forall>j. ?sel = Selected j \<longrightarrow> j < ?n \<and> Alive (?bs ! j)"
    using some by (cases ?found) simp_all
  have c: "?sel \<noteq> IndexPanic"
    by (cases ?found) simp_all
  let ?rb' = "rb\<lparr>current := current rb + 1\<rparr>"
  have sel': "?sel = (case List.find (\<lambda>j. Alive (?bs ! j))
                           (map (\<lambda>i. (unat (current ?rb') mod ?n + i) mod ?n) [0..<?n]) of
                      None \<Rightarrow> NoBackend
                    | Some j \<Rightarrow> Selected j)"
    by simp
  have "RoundRobinBalancer_NextBackend rb = (?sel, ?rb') \<and> ?rb' = rb\<lparr>current := current rb + 1\<rparr>
        \<and> ?sel = (case List.find (\<lambda>j. Alive (?bs ! j))
                           (map (\<lambda>i. (unat (current ?rb') mod ?n + i) mod ?n) [0..<?n]) of
                      None \<Rightarrow> NoBackend
                    | Some j \<Rightarrow> Selected j)
        \<and> (?sel = NoBackend \<longleftrightarrow> (\<forall>b \<in> set ?bs. \<not> Alive b))
        \<and> (\<forall>j. ?sel = Selected j \<longrightarrow> j < ?n \<and> Alive (?bs ! j))
        \<and> ?sel \<noteq> IndexPanic"
    using eq sel' a b c by (intro conjI) (rule refl | assumption)+
  then show ?thesis
    by (intro exI [of _ ?sel] exI [of _ ?rb'])
qed

text \<open>
  Claim C6.  On a non-empty pool of \<open>N\<close> backends (a Go slice, so \<open>N < 2\<^sup>6\<^sup>3\<close>) a call of
  the round-robin \<open>NextBackend\<close> adds one to the counter (a \<open>uint64\<close>, wrapping around)
  whatever the outcome, and scans from index \<open>counter mod N\<close>, where the counter is read
  as the call has just advanced it (the first call on a new balancer starts at index
  \<open>1 mod N\<close>).  It walks through the indices \<open>start, start + 1, \<dots>\<close> modulo \<open>N\<close>, \<open>N\<close> of
  them, and returns the first one whose backend is alive; it returns the null selection
  exactly when no backend is alive.
\<close>

theorem round_robin_scans_from_counter:
  assumes ne: "rr_backends rb \<noteq> []" and len: "length (rr_backends rb) < 2 ^ 63"
  shows "\<exists>sel rb'. RoundRobinBalancer_NextBackend rb = (sel, rb')
     \<and> rb' = rb\<lparr>current := current rb + 1\<rparr>
     \<and> sel = (case List.find (\<lambda>j. Alive (rr_backends rb ! j))
                     (map (\<lambda>i. (unat (current rb') mod length (rr_backends rb) + i)
                                   mod length (rr_backends rb))
                          [0..<length (rr_backends rb)]) of
                None \<Rightarrow> NoBackend
              | Some j \<Rightarrow> Selected j)
     \<and> (sel = NoBackend \<longleftrightarrow> (\<forall>b \<in> set (rr_backends rb). \<not> Alive b))
     \<and> (\<forall>j. sel = Selected j \<longrightarrow> j < length (rr_backends rb) \<and> Alive (rr_backends rb ! j))
     \<and> sel \<noteq> IndexPanic"
  using rr_next_char [OF ne len] .

theorem round_robin_scans_from_counter_witness:
  "RoundRobinBalancer_NextBackend
     \<lparr>rr_backends = [\<lparr>URL = ''http://a'', Alive = True, Connections = 0\<rparr>,
                     \<lparr>URL = ''http://b'', Alive = False, Connections = 0\<rparr>,
                     \<lparr>URL = ''http://c'', Alive = True, Connections = 0\<rparr>],
      current = 0\<rparr>
   = (Selected 2,
      \<lparr>rr_backends = [\<lparr>URL = ''http://a'', Alive = True, Connections = 0\<rparr>,
                      \<lparr>URL = ''http://b'', Alive = False, Connections = 0\<rparr>,
                      \<lparr>URL = ''http://c'', Alive = True, Connections = 0\<rparr>],
       current = 1\<rparr>)"
proof -
  let ?bs = "[\<lparr>URL = ''http://a'', Alive = True, Connections = 0\<rparr>,
              \<lparr>URL = ''http://b'', Alive = False, Connections = 0\<rparr>,
              \<lparr>URL = ''http://c'', Alive = True, Connections = 0\<rparr>]"
  let ?rb = "\<lparr>rr_backends = ?bs, current = 0 :: 64 word\<rparr>"
  have ne: "rr_backends ?rb \<noteq> []" by simp
  have len: "length (rr_backends ?rb) < 2 ^ 63" by simp
  have upt: "[0..<3] = [0, 1, 2]" by (simp add: upt_rec)
  show ?thesis
    using round_robin_scans_from_counter [OF ne len] by (auto simp: upt)
qed

lemma lc_fold_all_dead:
  "\<forall>ib \<in> set xs. \<not> Alive (snd ib) \<Longrightarrow> foldl lc_step acc xs = acc"
proof (induction xs arbitrary: acc)
  case Nil
  then show ?case by simp
next
  case (Cons x xs)
  have "lc_step acc x = acc"
    using Cons.prems by (cases acc; cases x) (simp add: lc_step_def IsAlive_def)
  then show ?case
    using Cons by simp
qed

lemma LeastConnection_none:
  assumes "bs = [] \<or> (\<forall>b \<in> set bs. \<not> Alive b)"
  shows "LeastConnectionBalancer_NextBackend bs = NoBackend"
proof (cases "bs = []")
  case True
  then show ?thesis by (simp add: LeastConnectionBalancer_NextBackend_def)
next
  case False
  then have dead: "\<forall>b \<in> set bs. \<not> Alive b" using assms by simp
  have "\<forall>ib \<in> set (zip [0..<length bs] bs). \<not> Alive (snd ib)"
    using dead by (auto dest: set_zip_rightD)
  then have "foldl lc_step (None, -1) (zip [0..<length bs] bs) = (None, -1)"
    by (rule lc_fold_all_dead)
  then show ?thesis
    by (simp add: LeastConnectionBalancer_NextBackend_def)
qed

lemma Random_none:
  assumes "bs = [] \<or> (\<forall>b \<in> set bs. \<not> Alive b)"
  shows "RandomBalancer_NextBackend bs unixNano = NoBackend"
proof (cases "bs = []")
  case True
  then show ?thesis by (simp add: RandomBalancer_NextBackend_def)
next
  case False
  then have "\<forall>b \<in> set bs. \<not> Alive b" using assms by simp
  then have "filter (\<lambda>i. IsAlive (bs ! i)) [0..<length bs] = []"
    by (auto simp: filter_empty_conv IsAlive_def)
  then show ?thesis
    by (simp add: RandomBalancer_NextBackend_def Let_def)
qed

lemma RoundRobin_none:
  assumes dead: "rr_backends rb = [] \<or> (\<forall>b \<in> set (rr_backends rb). \<not> Alive b)"
    and len: "length (rr_backends rb) < 2 ^ 63"
  shows "fst (RoundRobinBalancer_NextBackend rb) = NoBackend
         \<and> rr_backends (snd (RoundRobinBalancer_NextBackend rb)) = rr_backends rb"
proof (cases "rr_backends rb = []")
  case True
  then show ?thesis by (simp add: RoundRobinBalancer_NextBackend_def)
next
  case False
  then have d: "\<forall>b \<in> set (rr_backends rb). \<not> Alive b" using dead by simp
  have n0: "0 < length (rr_backends rb)" using False by simp
  let ?start = "(current rb + 1) mod (of_nat (length (rr_backends rb)) :: 64 word)"
  have "unat ?start = unat (current rb + 1) mod length (rr_backends rb)"
    by (simp add: unat_mod unat_of_nat_len64 [OF len])
  then have lt: "unat ?start < length (rr_backends rb)"
    using n0 by simp
  have "List.find (\<lambda>j. Alive (rr_backends rb ! j))
          (map (\<lambda>i. (unat ?start + i) mod length (rr_backends rb))
               [0..<length (rr_backends rb)]) = None"
    using d n0 by (auto simp: find_None_iff)
  then have "rr_scan (rr_backends rb) ?start 0 = NoBackend"
    using rr_scan_find [OF len lt, of 0] by simp
  then show ?thesis
    using False by (simp add: RoundRobinBalancer_NextBackend_def Let_def)
qed

lemma NextBackend_none:
  assumes "backends_of lb = [] \<or> (\<forall>b \<in> set (backends_of lb). \<not> Alive b)"
    and "length (backends_of lb) < 2 ^ 63"
  shows "\<exists>lb'. NextBackend lb unixNano = (NoBackend, lb') \<and> backends_of lb' = backends_of lb"
proof (cases lb)
  case (RoundRobin rb)
  then show ?thesis
    using RoundRobin_none [of rb] assms
    by (cases "RoundRobinBalancer_NextBackend rb") auto
next
  case (LeastConnection bs)
  then show ?thesis
    using LeastConnection_none [of bs] assms by auto
next
  case (Random bs)
  then show ?thesis
    using Random_none [of bs] assms by auto
qed

lemma lc_fold_some_alive:
  assumes "fst acc = None \<longrightarrow> snd acc = - 1" and "\<exists>ib \<in> set xs. Alive (snd ib)"
  shows "fst (foldl lc_step acc xs) \<noteq> None"
  using assms
proof (induction xs arbitrary: acc)
  case Nil
  then show ?case by simp
next
  case (Cons x xs)
  obtain sel m where acc: "acc = (sel, m)" by (cases acc)
  obtain i b where x: "x = (i, b)" by (cases x)
  show ?case
  proof (cases "Alive b")
    case True
    have "fst (lc_step acc x) \<noteq> None"
      using True Cons.prems(1) acc x
      by (auto simp: lc_step_def IsAlive_def GetConnections_def Let_def)
    moreover have "fst a \<noteq> None \<Longrightarrow> fst (foldl lc_step a ys) \<noteq> None" for a ys
    proof (induction ys arbitrary: a)
      case Nil
      then show ?case by simp
    next
      case (Cons y ys)
      have "fst (lc_step a y) \<noteq> None"
        using Cons.prems by (cases a; cases y) (auto simp: lc_step_def Let_def)
      then show ?case using Cons.IH by simp
    qed
    ultimately show ?thesis by simp
  next
    case False
    then have s: "lc_step acc x = acc"
      using acc x by (simp add: lc_step_def IsAlive_def)
    have "\<exists>ib \<in> set xs. Alive (snd ib)"
      using Cons.prems(2) False x by auto
    then show ?thesis
      using Cons.IH [OF Cons.prems(1)] s by simp
  qed
qed

lemma LeastConnection_none_iff:
  "LeastConnectionBalancer_NextBackend bs = NoBackend
     \<longleftrightarrow> bs = [] \<or> (\<forall>b \<in> set bs. \<not> Alive b)"
proof
  assume "bs = [] \<or> (\<forall>b \<in> set bs. \<not> Alive b)"
  then show "LeastConnectionBalancer_NextBackend bs = NoBackend"
    by (rule LeastConnection_none)
next
  assume n: "LeastConnectionBalancer_NextBackend bs = NoBackend"
  show "bs = [] \<or> (\<forall>b \<in> set bs. \<not> Alive b)"
  proof (rule ccontr)
    assume "\<not> (bs = [] \<or> (\<forall>b \<in> set bs. \<not> Alive b))"
    then obtain b where ne: "bs \<noteq> []" and b: "b \<in> set bs" "Alive b" by auto
    then obtain i where "i < length bs" "bs ! i = b"
      by (auto simp: in_set_conv_nth)
    then have "(i, b) \<in> set (zip [0..<length bs] bs)"
      by (auto simp: in_set_zip intro!: exI [of _ i])
    then have "\<exists>ib \<in> set (zip [0..<length bs] bs). Alive (snd ib)"
      using b(2) by force
    then have "fst (foldl lc_step (None, - 1) (zip [0..<length bs] bs)) \<noteq> None"
      by (intro lc_fold_some_alive) simp_all
    then show False
      using n ne by (auto simp: LeastConnectionBalancer_NextBackend_def split: option.splits)
  qed
qed

lemma Random_none_iff:
  "RandomBalancer_NextBackend bs unixNano = NoBackend
     \<longleftrightarrow> bs = [] \<or> (\<forall>b \<in> set bs. \<not> Alive b)"
proof
  assume "bs = [] \<or> (\<forall>b \<in> set bs. \<not> Alive b)"
  then show "RandomBalancer_NextBackend bs unixNano = NoBackend"
    by (rule Random_none)
next
  assume n: "RandomBalancer_NextBackend bs unixNano = NoBackend"
  show "bs = [] \<or> (\<forall>b \<in> set bs. \<not> Alive b)"
  proof (rule ccontr)
    assume "\<not> (bs = [] \<or> (\<forall>b \<in> set bs. \<not> Alive b))"
    then obtain b where ne: "bs \<noteq> []" and b: "b \<in> set bs" "Alive b" by auto
    then obtain i where "i < length bs" "bs ! i = b"
      by (auto simp: in_set_conv_nth)
    then have "i \<in> set (filter (\<lambda>i. IsAlive (bs ! i)) [0..<length bs])"
      using b(2) by (simp add: IsAlive_def)
    then have "filter (\<lambda>i. IsAlive (bs ! i)) [0..<length bs] \<noteq> []"
      by (metis empty_iff empty_set)
    then show False
      using n ne by (auto simp: RandomBalancer_NextBackend_def Let_def split: if_splits)
  qed
qed

lemma NextBackend_none_iff:
  assumes len: "length (backends_of lb) < 2 ^ 63"
  shows "fst (NextBackend lb unixNano) = NoBackend
           \<longleftrightarrow> backends_of lb = [] \<or> (\<forall>b \<in> set (backends_of lb). \<not> Alive b)"
proof (cases lb)
  case (RoundRobin rb)
  show ?thesis
  proof (cases "rr_backends rb = []")
    case True
    then show ?thesis
      using RoundRobin by (simp add: RoundRobinBalancer_NextBackend_def)
  next
    case False
    have l: "length (rr_backends rb) < 2 ^ 63"
      using len RoundRobin by simp
    obtain sel rb' where r: "RoundRobinBalancer_NextBackend rb = (sel, rb')"
      and s: "sel = NoBackend \<longleftrightarrow> (\<forall>b \<in> set (rr_backends rb). \<not> Alive b)"
      using rr_next_char [OF False l] by blast
    show ?thesis
      using RoundRobin r s False by simp
  qed
next
  case (LeastConnection bs)
  then show ?thesis
    using LeastConnection_none_iff [of bs] by simp
next
  case (Random bs)
  then show ?thesis
    using Random_none_iff [of bs unixNano] by simp
qed

lemma NextBackend_backends: "backends_of (snd (NextBackend lb unixNano)) = backends_of lb"
proof (cases lb)
  case (RoundRobin rb)
  then show ?thesis
    by (cases "RoundRobinBalancer_NextBackend rb")
       (auto simp: RoundRobinBalancer_NextBackend_def Let_def split: if_splits)
next
  case (LeastConnection bs)
  then show ?thesis by simp
next
  case (Random bs)
  then show ?thesis by simp
qed

section \<open>Proofs: proxy\<close>

declare retry_loop.simps [simp del]

lemma proxyRequest_error: "fst (proxyRequest r io) = attempt_error r"
  by (cases r) (simp_all add: proxyRequest_def attempt_error_def Let_def)

lemma proxyRequest_calls: "calls (snd (proxyRequest r io)) = calls io + 1"
  by (cases r) (simp_all add: proxyRequest_def Let_def http_Error_def)

lemma proxyRequest_sent:
  "sent io \<le> sent (snd (proxyRequest r io)) \<and> sent (snd (proxyRequest r io)) \<le> sent io + 1"
  by (cases r) (simp_all add: proxyRequest_def Let_def http_Error_def)

lemma retry_loop_done:
  "\<not> attempt \<le> RetryAttempts cfg \<Longrightarrow> retry_loop cfg up attempt lastErr io = (lastErr, io)"
  by (subst retry_loop.simps) simp

text \<open>One round of the loop: the attempt runs on a state \<open>io'\<close> that differs from \<open>io\<close>
  at most in the sleep log; a success ends the loop, a failure goes to the next round.\<close>

lemma retry_loop_round:
  assumes "attempt \<le> RetryAttempts cfg"
  shows "\<exists>io'. calls io' = calls io + 1 \<and> sent io \<le> sent io' \<and> sent io' \<le> sent io + 1
           \<and> retry_loop cfg up attempt lastErr io =
               (if attempt_error (up (nat attempt)) = None then (None, io')
                else retry_loop cfg up (attempt + 1) (attempt_error (up (nat attempt))) io')"
proof -
  define io1 where
    "io1 = (if attempt > 0 then io\<lparr>slept := slept io @ [wrap64 (RetryDelay cfg * attempt)]\<rparr>
            else io)"
  have f: "calls io1 = calls io" "sent io1 = sent io"
    by (simp_all add: io1_def)
  obtain e io' where r: "proxyRequest (up (nat attempt)) io1 = (e, io')"
    by (cases "proxyRequest (up (nat attempt)) io1") auto
  have e: "e = attempt_error (up (nat attempt))"
    using proxyRequest_error [where r = "up (nat attempt)" and io = io1] unfolding r by simp
  have c: "calls io' = calls io + 1"
    using proxyRequest_calls [where r = "up (nat attempt)" and io = io1] unfolding r f by simp
  have s: "sent io \<le> sent io' \<and> sent io' \<le> sent io + 1"
    using proxyRequest_sent [where r = "up (nat attempt)" and io = io1] unfolding r f by simp
  have "retry_loop cfg up attempt lastErr io =
          (if attempt_error (up (nat attempt)) = None then (None, io')
           else retry_loop cfg up (attempt + 1) (attempt_error (up (nat attempt))) io')"
    using assms r e unfolding io1_def
    by (subst retry_loop.simps) (auto simp: isClientError_def split: option.splits)
  then show ?thesis
    using c s by blast
qed

lemma retry_loop_bounds:
  "calls io \<le> calls (snd (retry_loop cfg up a lastErr io))
   \<and> calls (snd (retry_loop cfg up a lastErr io)) \<le> calls io + nat (RetryAttempts cfg + 1 - a)
   \<and> sent io \<le> sent (snd (retry_loop cfg up a lastErr io))
   \<and> sent (snd (retry_loop cfg up a lastErr io)) - sent io
        \<le> calls (snd (retry_loop cfg up a lastErr io)) - calls io"
proof (induction "nat (RetryAttempts cfg + 1 - a)" arbitrary: a lastErr io)
  case 0
  then have "\<not> a \<le> RetryAttempts cfg" by simp
  then show ?case by (simp add: retry_loop_done)
next
  case (Suc d)
  then have a: "a \<le> RetryAttempts cfg" by simp
  have d: "d = nat (RetryAttempts cfg + 1 - (a + 1))" using Suc.hyps(2) by simp
  obtain io' where c1: "calls io' = calls io + 1"
    and s1: "sent io \<le> sent io'" "sent io' \<le> sent io + 1"
    and eq: "retry_loop cfg up a lastErr io =
               (if attempt_error (up (nat a)) = None then (None, io')
                else retry_loop cfg up (a + 1) (attempt_error (up (nat a))) io')"
    using retry_loop_round [OF a] by blast
  show ?case
  proof (cases "attempt_error (up (nat a)) = None")
    case True
    then have "retry_loop cfg up a lastErr io = (None, io')"
      using eq by simp
    moreover have "1 \<le> nat (RetryAttempts cfg + 1 - a)"
      using a by simp
    ultimately show ?thesis
      using c1 s1 by simp
  next
    case False
    then have eq': "retry_loop cfg up a lastErr io =
                 retry_loop cfg up (a + 1) (attempt_error (up (nat a))) io'"
      using eq by (simp del: not_None_eq)
    have n: "nat (RetryAttempts cfg + 1 - a) = Suc (nat (RetryAttempts cfg + 1 - (a + 1)))"
      using a by simp
    show ?thesis
      unfolding eq' n
      using Suc.hyps(1) [OF d, where lastErr = "attempt_error (up (nat a))" and io = io'] c1 s1
      by linarith
  qed
qed

lemma retry_loop_all_fail:
  assumes "0 \<le> a"
    and "\<forall>j. a \<le> j \<and> j \<le> RetryAttempts cfg \<longrightarrow> attempt_error (up (nat j)) \<noteq> None"
  shows "fst (retry_loop cfg up a lastErr io)
           = (if a \<le> RetryAttempts cfg then attempt_error (up (nat (RetryAttempts cfg)))
              else lastErr)
         \<and> calls (snd (retry_loop cfg up a lastErr io))
             = calls io + nat (RetryAttempts cfg + 1 - a)"
  using assms
proof (induction "nat (RetryAttempts cfg + 1 - a)" arbitrary: a lastErr io)
  case 0
  then have "\<not> a \<le> RetryAttempts cfg" by simp
  then show ?case by (simp add: retry_loop_done)
next
  case (Suc d)
  then have a: "a \<le> RetryAttempts cfg" by simp
  have d: "d = nat (RetryAttempts cfg + 1 - (a + 1))" using Suc.hyps(2) by simp
  have f: "attempt_error (up (nat a)) \<noteq> None"
    using Suc.prems a by simp
  obtain io' where c1: "calls io' = calls io + 1"
    and eq: "retry_loop cfg up a lastErr io =
               retry_loop cfg up (a + 1) (attempt_error (up (nat a))) io'"
    using retry_loop_round [OF a, where up = up and lastErr = lastErr and io = io] f
    by (auto simp del: not_None_eq)
  have rest: "\<forall>j. a + 1 \<le> j \<and> j \<le> RetryAttempts cfg \<longrightarrow> attempt_error (up (nat j)) \<noteq> None"
    using Suc.prems(2) by simp
  have a1: "0 \<le> a + 1" using Suc.prems(1) by simp
  have ih: "fst (retry_loop cfg up (a + 1) (attempt_error (up (nat a))) io')
              = (if a + 1 \<le> RetryAttempts cfg then attempt_error (up (nat (RetryAttempts cfg)))
                 else attempt_error (up (nat a)))
            \<and> calls (snd (retry_loop cfg up (a + 1) (attempt_error (up (nat a))) io'))
                = calls io' + nat (RetryAttempts cfg + 1 - (a + 1))"
    using Suc.hyps(1) [OF d a1 rest] .
  have last: "\<not> a + 1 \<le> RetryAttempts cfg \<Longrightarrow> a = RetryAttempts cfg"
    using a by simp
  have n: "nat (RetryAttempts cfg + 1 - a) = Suc (nat (RetryAttempts cfg + 1 - (a + 1)))"
    using a by simp
  show ?case
  proof (cases "a + 1 \<le> RetryAttempts cfg")
    case True
    then show ?thesis
      unfolding eq n using ih c1 a by simp
  next
    case False
    then have aR: "nat a = nat (RetryAttempts cfg)" using last by simp
    show ?thesis
      unfolding eq n using ih c1 a False aR by simp
  qed
qed

lemma retry_loop_first_success:
  assumes "0 \<le> a" and "a \<le> k" and "k \<le> RetryAttempts cfg"
    and "attempt_error (up (nat k)) = None"
    and "\<forall>j. a \<le> j \<and> j < k \<longrightarrow> attempt_error (up (nat j)) \<noteq> None"
  shows "fst (retry_loop cfg up a lastErr io) = None
         \<and> calls (snd (retry_loop cfg up a lastErr io)) = calls io + nat (k + 1 - a)"
  using assms
proof (induction "nat (k - a)" arbitrary: a lastErr io)
  case 0
  then have ak: "a = k" by simp
  then have a: "a \<le> RetryAttempts cfg" using 0 by simp
  obtain io' where c1: "calls io' = calls io + 1"
    and eq: "retry_loop cfg up a lastErr io = (None, io')"
    using retry_loop_round [OF a, where up = up and lastErr = lastErr and io = io] 0 ak
    by auto
  show ?case
    using eq c1 ak by simp
next
  case (Suc d)
  then have ak: "a < k" by simp
  then have a: "a \<le> RetryAttempts cfg" using Suc.prems by simp
  have d: "d = nat (k - (a + 1))" using Suc.hyps(2) by simp
  have f: "attempt_error (up (nat a)) \<noteq> None"
    using Suc.prems(5) ak by simp
  obtain io' where c1: "calls io' = calls io + 1"
    and eq: "retry_loop cfg up a lastErr io =
               retry_loop cfg up (a + 1) (attempt_error (up (nat a))) io'"
    using retry_loop_round [OF a, where up = up and lastErr = lastErr and io = io] f
    by (auto simp del: not_None_eq)
  have rest: "\<forall>j. a + 1 \<le> j \<and> j < k \<longrightarrow> attempt_error (up (nat j)) \<noteq> None"
    using Suc.prems(5) by simp
  have a1: "0 \<le> a + 1" "a + 1 \<le> k" using Suc.prems(1) ak by simp_all
  have ih: "fst (retry_loop cfg up (a + 1) (attempt_error (up (nat a))) io') = None
            \<and> calls (snd (retry_loop cfg up (a + 1) (attempt_error (up (nat a))) io'))
                = calls io' + nat (k + 1 - (a + 1))"
    using Suc.hyps(1) [OF d a1 Suc.prems(3,4) rest] .
  have n: "nat (k + 1 - a) = Suc (nat (k + 1 - (a + 1)))"
    using ak by simp
  show ?case
    unfolding eq n using ih c1 by auto
qed

lemma connections_restored: "DecrementConnections (IncrementConnections b) = b"
  by (simp add: DecrementConnections_def IncrementConnections_def)

text \<open>
  Claim C8, as it stands, fails at a retry budget that the configuration accepts: with
  \<open>RetryAttempts = -3\<close> the loop body never runs, so the number of attempts, 0, is not at
  most \<open>RetryAttempts + 1 = -2\<close>; the function returns \<open>nil\<close> although nothing was sent.
\<close>

theorem retry_negative_budget_counterexample:
  "\<not> int (calls (snd (snd (proxyRequestWithRetry \<lparr>RetryAttempts = - 3, RetryDelay = 100000000\<rparr>
                              (\<lambda>i. SendFailed ''refused'')
                              \<lparr>URL = ''http://a'', Alive = True, Connections = 0\<rparr>
                              \<lparr>written = [], calls = 0, sent = 0, slept = []\<rparr>))))
       \<le> RetryAttempts \<lparr>RetryAttempts = - 3, RetryDelay = 100000000\<rparr> + 1
   \<and> fst (proxyRequestWithRetry \<lparr>RetryAttempts = - 3, RetryDelay = 100000000\<rparr>
            (\<lambda>i. SendFailed ''refused'')
            \<lparr>URL = ''http://a'', Alive = True, Connections = 0\<rparr>
            \<lparr>written = [], calls = 0, sent = 0, slept = []\<rparr>) = None"
  by (simp add: proxyRequestWithRetry_def retry_loop_done IncrementConnections_def)

text \<open>
  Claim C8, amended.  For a retry budget below the largest \<open>int\<close> (so that the loop
  counter does not wrap), \<open>proxyRequestWithRetry\<close> calls \<open>proxyRequest\<close> at most
  \<open>max(0, RetryAttempts + 1)\<close> times, for the attempts \<open>0, \<dots>, RetryAttempts\<close>, and sends at
  most that many upstream requests.  The client-error test is false for every error, so a
  failing attempt is always followed by the next one while the budget lasts: if all
  attempts fail, exactly \<open>max(0, RetryAttempts + 1)\<close> are made and the error returned is
  that of the last attempt (\<open>nil\<close> when the budget is negative and no attempt is made); if
  attempt \<open>k\<close> is the first to succeed, exactly \<open>k + 1\<close> are made and \<open>nil\<close> is returned.
  The backend's connection count is restored.
\<close>

theorem retry_budget_and_last_error:
  assumes small: "RetryAttempts cfg < 2 ^ 63 - 1"
  shows "\<exists>err io'. proxyRequestWithRetry cfg up backend io = (err, backend, io')
     \<and> calls io' \<le> calls io + nat (RetryAttempts cfg + 1)
     \<and> sent io' - sent io \<le> calls io' - calls io
     \<and> (\<forall>e. \<not> isClientError e)
     \<and> ((\<forall>j < nat (RetryAttempts cfg + 1). attempt_error (up j) \<noteq> None) \<longrightarrow>
           calls io' = calls io + nat (RetryAttempts cfg + 1)
           \<and> err = (if 0 \<le> RetryAttempts cfg then attempt_error (up (nat (RetryAttempts cfg)))
                    else None))
     \<and> (\<forall>k < nat (RetryAttempts cfg + 1).
           attempt_error (up k) = None \<and> (\<forall>j < k. attempt_error (up j) \<noteq> None) \<longrightarrow>
           calls io' = calls io + k + 1 \<and> err = None)"
proof -
  obtain err io' where r: "retry_loop cfg up 0 None io = (err, io')"
    by (cases "retry_loop cfg up 0 None io") auto
  have p: "proxyRequestWithRetry cfg up backend io = (err, backend, io')"
    using r by (simp add: proxyRequestWithRetry_def Let_def connections_restored)
  have b: "calls io' \<le> calls io + nat (RetryAttempts cfg + 1)"
    "sent io' - sent io \<le> calls io' - calls io"
    using retry_loop_bounds [of io cfg up 0 None] unfolding r by simp_all
  have c: "\<forall>e. \<not> isClientError e"
    by (simp add: isClientError_def)
  have d: "calls io' = calls io + nat (RetryAttempts cfg + 1)
           \<and> err = (if 0 \<le> RetryAttempts cfg then attempt_error (up (nat (RetryAttempts cfg)))
                    else None)"
    if all: "\<forall>j < nat (RetryAttempts cfg + 1). attempt_error (up j) \<noteq> None"
  proof -
    have "\<forall>j. 0 \<le> j \<and> j \<le> RetryAttempts cfg \<longrightarrow> attempt_error (up (nat j)) \<noteq> None"
    proof (intro allI impI)
      fix j :: int
      assume "0 \<le> j \<and> j \<le> RetryAttempts cfg"
      then have "nat j < nat (RetryAttempts cfg + 1)" by auto
      then show "attempt_error (up (nat j)) \<noteq> None"
        using all by blast
    qed
    from retry_loop_all_fail [OF _ this, of None io] show ?thesis
      unfolding r by simp
  qed
  have e: "calls io' = calls io + k + 1 \<and> err = None"
    if k: "k < nat (RetryAttempts cfg + 1)" and ok: "attempt_error (up k) = None"
      and before: "\<forall>j < k. attempt_error (up j) \<noteq> None" for k
  proof -
    have k1: "0 \<le> int k" "int k \<le> RetryAttempts cfg"
      using k by auto
    have k2: "attempt_error (up (nat (int k))) = None"
      using ok by simp
    have k3: "\<forall>j. 0 \<le> j \<and> j < int k \<longrightarrow> attempt_error (up (nat j)) \<noteq> None"
    proof (intro allI impI)
      fix j :: int
      assume "0 \<le> j \<and> j < int k"
      then have "nat j < k" by auto
      then show "attempt_error (up (nat j)) \<noteq> None"
        using before by blast
    qed
    from retry_loop_first_success [OF _ k1 k2 k3, of None io] show ?thesis
      unfolding r by (simp add: nat_add_distrib)
  qed
  show ?thesis
    using p b c d e by blast
qed

theorem retry_budget_and_last_error_witness:
  "\<exists>io'. proxyRequestWithRetry \<lparr>RetryAttempts = 2, RetryDelay = 100000000\<rparr>
            (\<lambda>i. SendFailed (if i = 2 then ''timeout'' else ''refused''))
            \<lparr>URL = ''http://a'', Alive = True, Connections = 0\<rparr>
            \<lparr>written = [], calls = 0, sent = 0, slept = []\<rparr>
          = (Some (ErrOther ''timeout''), \<lparr>URL = ''http://a'', Alive = True, Connections = 0\<rparr>, io')
        \<and> calls io' = 3"
proof -
  let ?cfg = "\<lparr>RetryAttempts = 2, RetryDelay = 100000000\<rparr>"
  let ?up = "\<lambda>i::nat. SendFailed (if i = 2 then ''timeout'' else ''refused'')"
  have small: "RetryAttempts ?cfg < 2 ^ 63 - 1"
    by simp
  have fail: "\<forall>j < nat (RetryAttempts ?cfg + 1). attempt_error (?up j) \<noteq> None"
    by (simp add: attempt_error_def proxyRequest_def Let_def)
  have last: "attempt_error (?up (nat (RetryAttempts ?cfg))) = Some (ErrOther ''timeout'')"
    by (simp add: attempt_error_def proxyRequest_def Let_def)
  show ?thesis
    using retry_budget_and_last_error [OF small, of ?up
        "\<lparr>URL = ''http://a'', Alive = True, Connections = 0\<rparr>"
        "\<lparr>written = [], calls = 0, sent = 0, slept = []\<rparr>"] fail last
    by auto
qed

text \<open>
  Claim C7.  For a request whose path is not whitelisted: whenever \<open>NextBackend\<close> returns
  the null selection, the proxy stage answers \<open>503 Service Unavailable\<close> and returns;
  \<open>proxyRequest\<close> is not called, nothing is sent upstream, and the breaker is not touched.
  Under each of the three strategies (on a pool that is a Go slice, so shorter than
  \<open>2\<^sup>6\<^sup>3\<close>) \<open>NextBackend\<close> returns the null selection exactly when the pool is empty or
  no backend in it is alive, and it never changes the pool.
\<close>

theorem no_alive_backend_gives_503:
  assumes nw: "\<not> whitelist path"
  shows "(fst (NextBackend lb unixNano) = NoBackend \<longrightarrow>
            ProxyMiddleware lb breaker cfg whitelist path unixNano t0 t1 up io =
              (Returned, snd (NextBackend lb unixNano), breaker,
               io\<lparr>written := written io @ [HttpError 503 ''Service Unavailable'']\<rparr>))
     \<and> (length (backends_of lb) < 2 ^ 63 \<longrightarrow>
            (fst (NextBackend lb unixNano) = NoBackend
               \<longleftrightarrow> backends_of lb = [] \<or> (\<forall>b \<in> set (backends_of lb). \<not> Alive b)))
     \<and> backends_of (snd (NextBackend lb unixNano)) = backends_of lb"
proof -
  have a: "ProxyMiddleware lb breaker cfg whitelist path unixNano t0 t1 up io =
              (Returned, snd (NextBackend lb unixNano), breaker,
               io\<lparr>written := written io @ [HttpError 503 ''Service Unavailable'']\<rparr>)"
    if "fst (NextBackend lb unixNano) = NoBackend"
    using nw that
    by (cases "NextBackend lb unixNano")
       (simp add: ProxyMiddleware_def http_Error_def StatusServiceUnavailable_def)
  show ?thesis
    using a NextBackend_none_iff [of lb unixNano] NextBackend_backends [of lb unixNano]
    by blast
qed

theorem no_alive_backend_gives_503_witness:
  "ProxyMiddleware
     (Random [\<lparr>URL = ''http://a'', Alive = False, Connections = 0\<rparr>,
              \<lparr>URL = ''http://b'', Alive = False, Connections = 0\<rparr>])
     None \<lparr>RetryAttempts = 3, RetryDelay = 100000000\<rparr> (\<lambda>p. p = ''/health'') ''/api/v2/orders''
     1700000000000000000 0 0 (\<lambda>i. Copied 200)
     \<lparr>written = [], calls = 0, sent = 0, slept = []\<rparr>
   = (Returned,
      Random [\<lparr>URL = ''http://a'', Alive = False, Connections = 0\<rparr>,
              \<lparr>URL = ''http://b'', Alive = False, Connections = 0\<rparr>],
      None,
      \<lparr>written = [HttpError 503 ''Service Unavailable''], calls = 0, sent = 0, slept = []\<rparr>)"
proof -
  let ?bs = "[\<lparr>URL = ''http://a'', Alive = False, Connections = 0\<rparr>,
              \<lparr>URL = ''http://b'', Alive = False, Connections = 0\<rparr>]"
  have nw: "\<not> (\<lambda>p. p = ''/health'') ''/api/v2/orders''" by simp
  have nb: "NextBackend (Random ?bs) 1700000000000000000 = (NoBackend, Random ?bs)"
    using Random_none [of ?bs 1700000000000000000] by simp
  show ?thesis
    using no_alive_backend_gives_503 [where whitelist = "\<lambda>p. p = ''/health''"
        and path = "''/api/v2/orders''" and lb = "Random ?bs"
        and unixNano = 1700000000000000000 and breaker = None
        and cfg = "\<lparr>RetryAttempts = 3, RetryDelay = 100000000\<rparr>"
        and ?t0.0 = 0 and ?t1.0 = 0 and up = "\<lambda>i. Copied 200"
        and io = "\<lparr>written = [], calls = 0, sent = 0, slept = []\<rparr>"] nw nb
    by auto
qed

section \<open>Proofs: health checker\<close>

lemma Backend_Alive_same: "Alive b = a \<Longrightarrow> b\<lparr>Alive := a\<rparr> = b"
  by (cases b) auto

text \<open>
  Claim C4, as it stands, fails: a probe answered with status 204 (a 2xx status) does not
  mark a backend that is down as up.
\<close>

theorem health_check_2xx_counterexample:
  "(200 :: int) \<le> 204 \<and> (204 :: int) < 300
   \<and> \<not> Alive \<lparr>URL = ''http://a'', Alive = False, Connections = 0\<rparr>
   \<and> \<not> Alive (fst (checkBackend (Response 204)
                      \<lparr>URL = ''http://a'', Alive = False, Connections = 0\<rparr>))"
  by (simp add: checkBackend_def StatusOK_def MarkBackendDown_def MarkBackendUp_def
        SetAlive_def IsAlive_def Let_def)

text \<open>
  Claim C4, amended.  The health check takes status 200, and no other status, as success.
  A probe answered with 200 marks a backend that was down as up and logs it; a probe that
  fails or is answered with any other status marks a backend that was up as down (and
  logs it when the request was sent); a probe that was sent and whose outcome agrees with
  the current flag changes nothing and logs nothing; a probe whose request cannot be
  built leaves a backend that is down as it is.
\<close>

theorem health_check_transitions:
  "(\<not> Alive b \<longrightarrow>
      checkBackend (Response 200) b = (b\<lparr>Alive := True\<rparr>, [(LogInfo, ''Backend marked as up'')]))
   \<and> (Alive b \<and> code \<noteq> 200 \<longrightarrow>
      checkBackend (Response code) b
        = (b\<lparr>Alive := False\<rparr>, [(LogWarn, ''Backend health check failed'')]))
   \<and> (Alive b \<longrightarrow>
      checkBackend (DoFailed err) b = (b\<lparr>Alive := False\<rparr>, [(LogWarn, ''Backend marked as down'')]))
   \<and> (Alive b \<longrightarrow> fst (checkBackend (NewRequestFailed err) b) = b\<lparr>Alive := False\<rparr>)
   \<and> (Alive b \<longrightarrow> checkBackend (Response 200) b = (b, []))
   \<and> (\<not> Alive b \<and> code \<noteq> 200 \<longrightarrow> checkBackend (Response code) b = (b, []))
   \<and> (\<not> Alive b \<longrightarrow> checkBackend (DoFailed err) b = (b, []))
   \<and> (\<not> Alive b \<longrightarrow> fst (checkBackend (NewRequestFailed err) b) = b)"
proof (cases "Alive b")
  case True
  then show ?thesis
    using Backend_Alive_same [of b True]
    by (simp add: checkBackend_def StatusOK_def MarkBackendDown_def MarkBackendUp_def
          SetAlive_def IsAlive_def Let_def)
next
  case False
  then show ?thesis
    using Backend_Alive_same [of b False]
    by (simp add: checkBackend_def StatusOK_def MarkBackendDown_def MarkBackendUp_def
          SetAlive_def IsAlive_def Let_def)
qed

theorem health_check_transitions_witness:
  "checkBackend (Response 200) \<lparr>URL = ''http://a'', Alive = False, Connections = 0\<rparr>
     = (\<lparr>URL = ''http://a'', Alive = True, Connections = 0\<rparr>,
        [(LogInfo, ''Backend marked as up'')])
   \<and> checkBackend (Response 503) \<lparr>URL = ''http://a'', Alive = True, Connections = 0\<rparr>
     = (\<lparr>URL = ''http://a'', Alive = False, Connections = 0\<rparr>,
        [(LogWarn, ''Backend health check failed'')])
   \<and> checkBackend (Response 204) \<lparr>URL = ''http://a'', Alive = False, Connections = 0\<rparr>
     = (\<lparr>URL = ''http://a'', Alive = False, Connections = 0\<rparr>, [])"
  using health_check_transitions
          [of "\<lparr>URL = ''http://a'', Alive = False, Connections = 0\<rparr>" 204 "''''"]
        health_check_transitions
          [of "\<lparr>URL = ''http://a'', Alive = True, Connections = 0\<rparr>" 503 "''''"]
  by simp

end
